theory Spec2Isabelle
  imports Main "HOL-Library.Multiset"
begin

section \<open>Data model of \<open>src/utils/hooks.tsx\<close>\<close>

text \<open>
  A \<open>Stroke\<close> is the \<open>STROKE\<close> variant of \<open>StrokeData\<close>; its \<open>type\<close> field is the
  constant tag and is carried by the constructor of \<open>StrokeData\<close>. Timestamps are the
  integers \<open>Date.now()\<close> returns.
\<close>

record Stroke =
  uid :: string
  pathData :: string
  timestamp :: int

datatype StrokeData =
    STROKE Stroke
  | HIDE string string int
  | MUTATE string string string int

text \<open>Field reads that the source performs on any variant: \<open>s.timestamp\<close>, \<open>s.uid\<close>.\<close>

fun sd_timestamp :: "StrokeData \<Rightarrow> int" where
  "sd_timestamp (STROKE s) = timestamp s"
| "sd_timestamp (HIDE u ou ts) = ts"
| "sd_timestamp (MUTATE u ou p ts) = ts"

fun sd_uid :: "StrokeData \<Rightarrow> string" where
  "sd_uid (STROKE s) = uid s"
| "sd_uid (HIDE u ou ts) = u"
| "sd_uid (MUTATE u ou p ts) = u"

type_synonym Mutation = "string \<times> string"
type_synonym Splitter = "string \<times> string list"

datatype Operation =
    Op_add Stroke
  | Op_add_list "Stroke list"
  | Op_erase "string list"
  | Op_mutate "Mutation list" int
  | Op_split "Splitter list"
  | Op_undo
  | Op_redo
  | Op_other string

subsection \<open>Immutable.js \<open>OrderedMap\<close> as an insertion-ordered association list\<close>

text \<open>
  An \<open>OrderedMap\<close> iterates in insertion order; \<open>set\<close> on a key that is present
  replaces the value where it stands, \<open>set\<close> on a new key appends, \<open>delete\<close> removes the
  entry and keeps the order of the others. \<open>deleteAll\<close> deletes key by key and
  \<open>merge\<close> sets entry by entry.
\<close>

type_synonym ('k, 'v) OrderedMap = "('k \<times> 'v) list"

definition om_get :: "('k, 'v) OrderedMap \<Rightarrow> 'k \<Rightarrow> 'v option" where
  "om_get m k = map_of m k"

definition om_has :: "('k, 'v) OrderedMap \<Rightarrow> 'k \<Rightarrow> bool" where
  "om_has m k = (om_get m k \<noteq> None)"

definition om_keys :: "('k, 'v) OrderedMap \<Rightarrow> 'k list" where
  "om_keys m = map fst m"

definition om_values :: "('k, 'v) OrderedMap \<Rightarrow> 'v list" where
  "om_values m = map snd m"

fun om_set :: "'k \<Rightarrow> 'v \<Rightarrow> ('k, 'v) OrderedMap \<Rightarrow> ('k, 'v) OrderedMap" where
  "om_set k v [] = [(k, v)]"
| "om_set k v (e # m) = (if fst e = k then (k, v) # m else e # om_set k v m)"

definition om_delete :: "'k \<Rightarrow> ('k, 'v) OrderedMap \<Rightarrow> ('k, 'v) OrderedMap" where
  "om_delete k m = filter (\<lambda>e. fst e \<noteq> k) m"

definition om_deleteAll :: "'k list \<Rightarrow> ('k, 'v) OrderedMap \<Rightarrow> ('k, 'v) OrderedMap" where
  "om_deleteAll ks m = fold om_delete ks m"

definition om_merge :: "('k \<times> 'v) list \<Rightarrow> ('k, 'v) OrderedMap \<Rightarrow> ('k, 'v) OrderedMap" where
  "om_merge es m = fold (\<lambda>e acc. om_set (fst e) (snd e) acc) es m"

text \<open>
  \<open>update(key, updater)\<close>: the updater receives the stored value or \<open>undefined\<close>
  (\<open>None\<close>). When the key is absent and the updater returns \<open>undefined\<close> the map is
  returned as it is; a value it returns is stored with \<open>set\<close>. The updaters of this
  program return \<open>undefined\<close> only for an absent key.
\<close>

definition om_update ::
  "'k \<Rightarrow> ('v option \<Rightarrow> 'v option) \<Rightarrow> ('k, 'v) OrderedMap \<Rightarrow> ('k, 'v) OrderedMap" where
  "om_update k f m = (case f (om_get m k) of None \<Rightarrow> m | Some v \<Rightarrow> om_set k v m)"

subsection \<open>The snapshot record and the \<open>DrawState\<close> class\<close>

text \<open>
  \<open>historyStack\<close> and \<open>undoStack\<close> are Immutable \<open>List\<close>s of whole records: \<open>push\<close>
  appends at the end, \<open>last\<close> reads the end, \<open>unshift\<close> prepends and \<open>first\<close> reads
  the front. \<open>mutationPairs\<close> maps an origin UID to the UID of its MUTATE record.
\<close>

datatype DrawStateRecord =
  DrawStateRecord
    (strokes: "(string, StrokeData) OrderedMap")
    (mutationPairs: "(string, string) OrderedMap")
    (undoStack: "DrawStateRecord list")
    (historyStack: "DrawStateRecord list")

definition defaultFactory :: DrawStateRecord where
  "defaultFactory = DrawStateRecord [] [] [] []"

fun set_strokes :: "(string, StrokeData) OrderedMap \<Rightarrow> DrawStateRecord \<Rightarrow> DrawStateRecord" where
  "set_strokes s (DrawStateRecord _ mp us hs) = DrawStateRecord s mp us hs"

fun set_mutationPairs :: "(string, string) OrderedMap \<Rightarrow> DrawStateRecord \<Rightarrow> DrawStateRecord" where
  "set_mutationPairs mp (DrawStateRecord s _ us hs) = DrawStateRecord s mp us hs"

fun set_undoStack :: "DrawStateRecord list \<Rightarrow> DrawStateRecord \<Rightarrow> DrawStateRecord" where
  "set_undoStack us (DrawStateRecord s mp _ hs) = DrawStateRecord s mp us hs"

fun set_historyStack :: "DrawStateRecord list \<Rightarrow> DrawStateRecord \<Rightarrow> DrawStateRecord" where
  "set_historyStack hs (DrawStateRecord s mp us _) = DrawStateRecord s mp us hs"

text \<open>\<open>Record.delete("undoStack")\<close> resets the field to its default, the empty list.\<close>

definition delete_undoStack :: "DrawStateRecord \<Rightarrow> DrawStateRecord" where
  "delete_undoStack r = set_undoStack [] r"

text \<open>
  Page dimensions are JavaScript numbers; the one arithmetic operation on them is the
  product in \<open>createEmpty\<close> and \<open>loadFromFlat\<close>, kept abstract as the product of the
  number type \<open>'n\<close>.
\<close>

record 'n DrawState =
  immutable :: DrawStateRecord
  width :: 'n
  height :: 'n
  lastOp :: "Operation option"

definition getUndoStack :: "'n DrawState \<Rightarrow> DrawStateRecord list" where
  "getUndoStack ds = undoStack (immutable ds)"

definition getHistoryStack :: "'n DrawState \<Rightarrow> DrawStateRecord list" where
  "getHistoryStack ds = historyStack (immutable ds)"

definition getStrokeMap :: "'n DrawState \<Rightarrow> (string, StrokeData) OrderedMap" where
  "getStrokeMap ds = strokes (immutable ds)"

definition getMutationPairs :: "'n DrawState \<Rightarrow> (string, string) OrderedMap" where
  "getMutationPairs ds = mutationPairs (immutable ds)"

definition createEmpty :: "'n::times \<Rightarrow> 'n \<Rightarrow> 'n DrawState" where
  "createEmpty ratio w =
     \<lparr>immutable = defaultFactory, width = w, height = w * ratio, lastOp = None\<rparr>"

subsection \<open>Undo and redo\<close>

definition undo :: "'n DrawState \<Rightarrow> 'n DrawState" where
  "undo drawState =
     (case getHistoryStack drawState of
        [] \<Rightarrow> drawState
      | _ # _ \<Rightarrow>
          (let lastRecord = last (getHistoryStack drawState);
               us = immutable drawState # getUndoStack drawState
           in \<lparr>immutable = set_undoStack us lastRecord,
               width = width drawState, height = height drawState,
               lastOp = Some Op_undo\<rparr>))"

definition redo :: "'n DrawState \<Rightarrow> 'n DrawState" where
  "redo drawState =
     (case getUndoStack drawState of
        [] \<Rightarrow> drawState
      | nextRecord # _ \<Rightarrow>
          \<lparr>immutable = nextRecord, width = width drawState, height = height drawState,
           lastOp = Some Op_redo\<rparr>)"

subsection \<open>The environment: \<open>uuid\<close> and the clock\<close>

text \<open>
  \<open>v4()\<close> and \<open>Date.now()\<close> read the outside world. The environment holds the sequence
  of values the successive calls return and how many calls were made; \<open>v5\<close> and
  \<open>validate\<close> of the \<open>uuid\<close> package are pure and are taken as they are given.
\<close>

record Env =
  v4_seq :: "nat \<Rightarrow> string"
  now_seq :: "nat \<Rightarrow> int"
  v4_count :: nat
  now_count :: nat
  v5 :: "string \<Rightarrow> string \<Rightarrow> string"
  validate :: "string \<Rightarrow> bool"

definition v4 :: "Env \<Rightarrow> string \<times> Env" where
  "v4 e = (v4_seq e (v4_count e), e\<lparr>v4_count := Suc (v4_count e)\<rparr>)"

definition Date_now :: "Env \<Rightarrow> int \<times> Env" where
  "Date_now e = (now_seq e (now_count e), e\<lparr>now_count := Suc (now_count e)\<rparr>)"

definition NIL :: string where
  "NIL = ''00000000-0000-0000-0000-000000000000''"

text \<open>\<open>String(index)\<close>: the decimal digits of an array index.\<close>

definition digit_char :: "nat \<Rightarrow> char" where
  "digit_char d = char_of (48 + d)"

fun String_of_index :: "nat \<Rightarrow> string" where
  "String_of_index n =
     (if n < 10 then [digit_char n] else String_of_index (n div 10) @ [digit_char (n mod 10)])"

declare String_of_index.simps [simp del]

subsection \<open>Content operations\<close>

definition pushStroke :: "'n DrawState \<Rightarrow> Stroke \<Rightarrow> 'n DrawState" where
  "pushStroke drawState stroke =
     (let prevRecord = immutable drawState;
          currRecord =
            delete_undoStack
              (set_historyStack (historyStack prevRecord @ [prevRecord])
                 (set_strokes (om_set (uid stroke) (STROKE stroke) (strokes prevRecord))
                    prevRecord))
      in \<lparr>immutable = currRecord, width = width drawState, height = height drawState,
          lastOp = Some (Op_add stroke)\<rparr>)"

definition addStroke :: "'n DrawState \<Rightarrow> string \<Rightarrow> Env \<Rightarrow> 'n DrawState \<times> Env" where
  "addStroke drawState p e =
     (let (u, e1) = v4 e;
          (ts, e2) = Date_now e1
      in (pushStroke drawState \<lparr>uid = u, pathData = p, timestamp = ts\<rparr>, e2))"

definition pushStrokeList :: "'n DrawState \<Rightarrow> Stroke list \<Rightarrow> 'n DrawState" where
  "pushStrokeList drawState strokeList =
     (let prevRecord = immutable drawState;
          currRecord =
            set_strokes
              (om_merge (map (\<lambda>stroke. (uid stroke, STROKE stroke)) strokeList)
                 (strokes prevRecord))
              prevRecord
      in \<lparr>immutable = currRecord, width = width drawState, height = height drawState,
          lastOp = Some (Op_add_list strokeList)\<rparr>)"

text \<open>
  The \<open>map\<close> of \<open>addStrokeList\<close>: one \<open>v4()\<close> per path, all with one timestamp. The
  optional callback is handed the new UIDs and has no part in the returned snapshot.
\<close>

fun newStrokes :: "int \<Rightarrow> string list \<Rightarrow> Env \<Rightarrow> Stroke list \<times> Env" where
  "newStrokes ts [] e = ([], e)"
| "newStrokes ts (p # ps) e =
     (let (u, e1) = v4 e;
          (rest, e2) = newStrokes ts ps e1
      in (\<lparr>uid = u, pathData = p, timestamp = ts\<rparr> # rest, e2))"

definition addStrokeList :: "'n DrawState \<Rightarrow> string list \<Rightarrow> Env \<Rightarrow> 'n DrawState \<times> Env" where
  "addStrokeList drawState pathDataList e =
     (let (ts, e1) = Date_now e;
          (strokeList, e2) = newStrokes ts pathDataList e1
      in (pushStrokeList drawState strokeList, e2))"

text \<open>The \<open>hidden.forEach\<close> of \<open>eraseStrokes\<close>: a fresh UID, then the clock, per hidden UID.\<close>

fun insertHidden ::
  "string list \<Rightarrow> (string, StrokeData) OrderedMap \<Rightarrow> Env \<Rightarrow> (string, StrokeData) OrderedMap \<times> Env" where
  "insertHidden [] s e = (s, e)"
| "insertHidden (hideID # hs) s e =
     (let (u, e1) = v4 e;
          (ts, e2) = Date_now e1
      in insertHidden hs (om_set u (HIDE u hideID ts) s) e2)"

definition eraseStrokes :: "'n DrawState \<Rightarrow> string list \<Rightarrow> Env \<Rightarrow> 'n DrawState \<times> Env" where
  "eraseStrokes drawState erased e =
     (if length erased = 0 then (drawState, e)
      else
        (let prevRecord = immutable drawState;
             strokes0 = getStrokeMap drawState;
             hidden = filter (\<lambda>u. \<not> om_has strokes0 u) erased;
             strokes1 = om_deleteAll erased strokes0;
             (strokes2, e') = insertHidden hidden strokes1 e;
             currRecord =
               delete_undoStack
                 (set_historyStack (historyStack prevRecord @ [prevRecord])
                    (set_strokes strokes2 prevRecord))
         in (\<lparr>immutable = currRecord, width = width drawState, height = height drawState,
              lastOp = Some (Op_erase erased)\<rparr>, e')))"

text \<open>
  The \<open>mutations.forEach\<close> of \<open>mutateStrokes\<close>. \<open>prevMutationUid ?? ""\<close> is the previous
  MUTATE UID of the origin, or the empty string when there is none.
\<close>

fun applyMutations ::
  "int \<Rightarrow> Mutation list \<Rightarrow> (string, StrokeData) OrderedMap \<times> (string, string) OrderedMap \<Rightarrow> Env
   \<Rightarrow> ((string, StrokeData) OrderedMap \<times> (string, string) OrderedMap) \<times> Env" where
  "applyMutations ts [] sm e = (sm, e)"
| "applyMutations ts (m # ms) sm e =
     (let (newUid, e1) = v4 e;
          strokes1 = om_set newUid (MUTATE newUid (fst m) (snd m) ts) (fst sm);
          prevMutationUid = om_get (snd sm) (fst m);
          mutationPairs1 = om_set (fst m) newUid (snd sm);
          strokes2 = om_delete (case prevMutationUid of None \<Rightarrow> [] | Some p \<Rightarrow> p) strokes1
      in applyMutations ts ms (strokes2, mutationPairs1) e1)"

text \<open>The default argument \<open>timestamp = Date.now()\<close> is read when no timestamp is passed.\<close>

definition mutateStrokes ::
  "'n DrawState \<Rightarrow> Mutation list \<Rightarrow> int option \<Rightarrow> Env \<Rightarrow> 'n DrawState \<times> Env" where
  "mutateStrokes drawState mutations tsArg e =
     (let (ts, e0) = (case tsArg of None \<Rightarrow> Date_now e | Some t \<Rightarrow> (t, e))
      in if length mutations = 0 then (drawState, e0)
         else
           (let prevRecord = immutable drawState;
                ((strokes1, mutationPairs1), e') =
                  applyMutations ts mutations
                    (getStrokeMap drawState, getMutationPairs drawState) e0;
                currRecord =
                  delete_undoStack
                    (set_historyStack (historyStack prevRecord @ [prevRecord])
                       (set_mutationPairs mutationPairs1 (set_strokes strokes1 prevRecord)))
            in (\<lparr>immutable = currRecord, width = width drawState, height = height drawState,
                 lastOp = Some (Op_mutate mutations ts)\<rparr>, e')))"

text \<open>
  \<open>splitStrokes\<close>. \<open>Map(splitters)\<close> keeps the last pair of a repeated key. The inner
  \<open>map\<close> callback assigns to \<open>prevUid\<close>, so the normalised UID is seen by the later
  indices. An array, also an empty one, is truthy.
\<close>

definition splitMap_get :: "Splitter list \<Rightarrow> string \<Rightarrow> string list option" where
  "splitMap_get splitters k = map_of (rev splitters) k"

fun splitEntries ::
  "Env \<Rightarrow> int \<Rightarrow> string \<Rightarrow> nat \<Rightarrow> string list \<Rightarrow> (string \<times> StrokeData) list" where
  "splitEntries e ts prevUid i [] = []"
| "splitEntries e ts prevUid i (p # ps) =
     (let prevUid1 = (if \<not> validate e prevUid then v5 e prevUid NIL else prevUid);
          u = v5 e (String_of_index i) prevUid1
      in (u, STROKE \<lparr>uid = u, pathData = p, timestamp = ts\<rparr>)
         # splitEntries e ts prevUid1 (Suc i) ps)"

fun splitForEach ::
  "Env \<Rightarrow> Splitter list \<Rightarrow> (string \<times> StrokeData) list \<Rightarrow> (string, StrokeData) OrderedMap
   \<Rightarrow> (string, StrokeData) OrderedMap" where
  "splitForEach e splitters [] acc = acc"
| "splitForEach e splitters (entry # rest) acc =
     splitForEach e splitters rest
       (case splitMap_get splitters (fst entry) of
          Some splitStrokes \<Rightarrow>
            om_merge (splitEntries e (sd_timestamp (snd entry)) (fst entry) 0 splitStrokes) acc
        | None \<Rightarrow> om_set (fst entry) (snd entry) acc)"

definition splitStrokes :: "'n DrawState \<Rightarrow> Splitter list \<Rightarrow> Env \<Rightarrow> 'n DrawState" where
  "splitStrokes drawState splitters e =
     (if length splitters = 0 then drawState
      else
        (let strokes1 = splitForEach e splitters (getStrokeMap drawState) [];
             prevRecord = immutable drawState;
             currRecord =
               set_historyStack (historyStack prevRecord @ [prevRecord])
                 (set_strokes strokes1 prevRecord)
         in \<lparr>immutable = currRecord, width = width drawState, height = height drawState,
             lastOp = Some (Op_split splitters)\<rparr>))"

definition pushOperation :: "'n DrawState \<Rightarrow> Operation \<Rightarrow> Env \<Rightarrow> 'n DrawState \<times> Env" where
  "pushOperation drawState op e =
     (case op of
        Op_add stroke \<Rightarrow> (pushStroke drawState stroke, e)
      | Op_add_list strokeList \<Rightarrow> (pushStrokeList drawState strokeList, e)
      | Op_erase erased \<Rightarrow> eraseStrokes drawState erased e
      | Op_mutate mutations ts \<Rightarrow> mutateStrokes drawState mutations (Some ts) e
      | Op_undo \<Rightarrow> (undo drawState, e)
      | Op_redo \<Rightarrow> (redo drawState, e)
      | Op_split splitters \<Rightarrow> (splitStrokes drawState splitters e, e)
      | Op_other _ \<Rightarrow> (drawState, e))"

subsection \<open>Serialisation and replay\<close>

text \<open>
  A \<open>FlatState\<close> holds the item object, read in the order of \<open>Object.entries\<close>, and the
  optional operation log.
\<close>

record FlatState =
  flat_strokes :: "(string \<times> StrokeData) list"
  operations :: "Operation list option"

text \<open>
  The scan of \<open>loadFromFlat\<close>. \<open>if (prevMutationUid)\<close> is a truthiness test: it fails
  for \<open>undefined\<close> and for the empty string.
\<close>

fun loadScan ::
  "(string \<times> StrokeData) list \<Rightarrow> (string, StrokeData) OrderedMap \<times> (string, string) OrderedMap
   \<Rightarrow> (string, StrokeData) OrderedMap \<times> (string, string) OrderedMap" where
  "loadScan [] sm = sm"
| "loadScan ((k, MUTATE u ou p ts) # rest) sm =
     (let prevMutationUid = om_get (snd sm) ou;
          mutationPairs1 = om_set ou k (snd sm);
          strokeMap1 =
            (case prevMutationUid of
               None \<Rightarrow> fst sm
             | Some pm \<Rightarrow> if pm \<noteq> [] then om_delete pm (fst sm) else fst sm)
      in loadScan rest (strokeMap1, mutationPairs1))"
| "loadScan ((k, _) # rest) sm = loadScan rest sm"

fun replay :: "Operation list \<Rightarrow> 'n DrawState \<Rightarrow> Env \<Rightarrow> 'n DrawState \<times> Env" where
  "replay [] ds e = (ds, e)"
| "replay (op # ops) ds e = (let (ds1, e1) = pushOperation ds op e in replay ops ds1 e1)"

definition loadFromFlat :: "FlatState \<Rightarrow> 'n::times \<Rightarrow> 'n \<Rightarrow> Env \<Rightarrow> 'n DrawState \<times> Env" where
  "loadFromFlat flatState ratio w e =
     (let (strokeMap, mutationPairs1) =
            loadScan (flat_strokes flatState) (flat_strokes flatState, []);
          ds = \<lparr>immutable = set_mutationPairs mutationPairs1 (set_strokes strokeMap defaultFactory),
                width = w, height = w * ratio, lastOp = None\<rparr>
      in case operations flatState of None \<Rightarrow> (ds, e) | Some ops \<Rightarrow> replay ops ds e)"

section \<open>The merge engine\<close>

subsection \<open>The \<open>heap\<close> package: an array-backed binary heap\<close>

text \<open>
  \<open>new Heap(cmp)\<close> keeps its nodes in an array; \<open>push\<close> is \<open>heappush\<close>, \<open>pop\<close> is
  \<open>heappop\<close> and \<open>size\<close> is the length of the array. The package is a dependency of the
  repository; its four functions are transcribed here:
  \<^verbatim>\<open>
  _siftdown(array, startpos, pos, cmp):
      newitem = array[pos];
      while (pos > startpos) {
        parentpos = (pos - 1) >> 1; parent = array[parentpos];
        if (cmp(newitem, parent) < 0) { array[pos] = parent; pos = parentpos; continue; }
        break;
      }
      return array[pos] = newitem;
  _siftup(array, pos, cmp):
      endpos = array.length; startpos = pos; newitem = array[pos];
      childpos = 2 * pos + 1;
      while (childpos < endpos) {
        rightpos = childpos + 1;
        if (rightpos < endpos && !(cmp(array[childpos], array[rightpos]) < 0))
          childpos = rightpos;
        array[pos] = array[childpos]; pos = childpos; childpos = 2 * pos + 1;
      }
      array[pos] = newitem;
      return _siftdown(array, startpos, pos, cmp);
  heappush(array, item, cmp):
      array.push(item); return _siftdown(array, 0, array.length - 1, cmp);
  heappop(array, cmp):
      lastelt = array.pop();
      if (array.length) { returnitem = array[0]; array[0] = lastelt; _siftup(array, 0, cmp); }
      else returnitem = lastelt;
      return returnitem;
  \<close>
  Every index the loops read is inside the array.
\<close>

function siftdown_loop ::
  "('a \<Rightarrow> 'a \<Rightarrow> int) \<Rightarrow> 'a \<Rightarrow> 'a list \<Rightarrow> nat \<Rightarrow> nat \<Rightarrow> 'a list" where
  "siftdown_loop cmp newitem array startpos pos =
     (if pos > startpos then
        (let parentpos = (pos - 1) div 2;
             parent = array ! parentpos
         in if cmp newitem parent < 0
            then siftdown_loop cmp newitem (array[pos := parent]) startpos parentpos
            else array[pos := newitem])
      else array[pos := newitem])"
  by pat_completeness auto
termination
  by (relation "measure (\<lambda>(cmp, newitem, array, startpos, pos). pos)") auto

declare siftdown_loop.simps [simp del]

definition siftdown :: "('a \<Rightarrow> 'a \<Rightarrow> int) \<Rightarrow> 'a list \<Rightarrow> nat \<Rightarrow> nat \<Rightarrow> 'a list" where
  "siftdown cmp array startpos pos = siftdown_loop cmp (array ! pos) array startpos pos"

function siftup_loop ::
  "('a \<Rightarrow> 'a \<Rightarrow> int) \<Rightarrow> 'a list \<Rightarrow> nat \<Rightarrow> nat \<Rightarrow> nat \<Rightarrow> 'a list \<times> nat" where
  "siftup_loop cmp array endpos pos childpos =
     (if childpos < endpos then
        (let rightpos = childpos + 1;
             childpos1 =
               (if rightpos < endpos \<and> \<not> (cmp (array ! childpos) (array ! rightpos) < 0)
                then rightpos else childpos)
         in siftup_loop cmp (array[pos := array ! childpos1]) endpos childpos1 (2 * childpos1 + 1))
      else (array, pos))"
  by pat_completeness auto
termination
  by (relation "measure (\<lambda>(cmp, array, endpos, pos, childpos). endpos - childpos)") auto

declare siftup_loop.simps [simp del]

definition siftup :: "('a \<Rightarrow> 'a \<Rightarrow> int) \<Rightarrow> 'a list \<Rightarrow> nat \<Rightarrow> 'a list" where
  "siftup cmp array pos =
     (let endpos = length array;
          startpos = pos;
          newitem = array ! pos;
          (array1, pos1) = siftup_loop cmp array endpos pos (2 * pos + 1)
      in siftdown cmp (array1[pos1 := newitem]) startpos pos1)"

definition heappush :: "('a \<Rightarrow> 'a \<Rightarrow> int) \<Rightarrow> 'a list \<Rightarrow> 'a \<Rightarrow> 'a list" where
  "heappush cmp array item = siftdown cmp (array @ [item]) 0 (length array)"

text \<open>\<open>pop\<close> of an empty heap returns \<open>undefined\<close> (\<open>None\<close>).\<close>

definition heappop :: "('a \<Rightarrow> 'a \<Rightarrow> int) \<Rightarrow> 'a list \<Rightarrow> 'a option \<times> 'a list" where
  "heappop cmp array =
     (if array = [] then (None, [])
      else
        (let lastelt = last array;
             array1 = butlast array
         in if length array1 \<noteq> 0
            then (Some (array1 ! 0), siftup cmp (array1[0 := lastelt]) 0)
            else (Some lastelt, array1)))"

subsection \<open>\<open>DrawState.mergeStates\<close>\<close>

text \<open>The comparator handed to the heap: \<open>([s0], [s1]) => s0.timestamp - s1.timestamp\<close>.\<close>

definition cmpTs :: "StrokeData \<times> nat \<Rightarrow> StrokeData \<times> nat \<Rightarrow> int" where
  "cmpTs a b = sd_timestamp (fst a) - sd_timestamp (fst b)"

text \<open>The three branches of the loop body on the popped item.\<close>

fun resolve :: "StrokeData \<Rightarrow> (string, Stroke) OrderedMap \<Rightarrow> (string, Stroke) OrderedMap" where
  "resolve (HIDE u ou ts) m = om_delete ou m"
| "resolve (MUTATE u ou p ts) m =
     om_update ou (\<lambda>s. case s of None \<Rightarrow> None | Some s' \<Rightarrow> Some (s'\<lparr>pathData := p\<rparr>)) m"
| "resolve (STROKE s) m = om_set (uid s) s m"

text \<open>
  An iterator over the values of a stroke map is the list of values not yet read. The
  first \<open>forEach\<close> reads the head of every iterator and pushes it with its index.
\<close>

fun pushHeads ::
  "nat \<Rightarrow> StrokeData list list \<Rightarrow> (StrokeData \<times> nat) list
   \<Rightarrow> (StrokeData \<times> nat) list \<times> StrokeData list list" where
  "pushHeads i [] h = (h, [])"
| "pushHeads i ([] # its) h = (let (h1, its1) = pushHeads (Suc i) its h in (h1, [] # its1))"
| "pushHeads i ((x # r) # its) h =
     (let (h1, its1) = pushHeads (Suc i) its (heappush cmpTs h (x, i)) in (h1, r # its1))"

text \<open>The heap operations keep the array's length as the package's \<open>size\<close> reports it.\<close>

lemma length_siftdown_loop [simp]:
  "length (siftdown_loop cmp x a s p) = length a"
  by (induction cmp x a s p rule: siftdown_loop.induct)
     (subst siftdown_loop.simps, simp add: Let_def)

lemma length_siftdown [simp]: "length (siftdown cmp a s p) = length a"
  by (simp add: siftdown_def)

lemma length_siftup_loop [simp]:
  "length (fst (siftup_loop cmp a n p c)) = length a"
  by (induction cmp a n p c rule: siftup_loop.induct)
     (subst siftup_loop.simps, simp add: Let_def)

lemma length_siftup [simp]: "length (siftup cmp a p) = length a"
  by (simp add: siftup_def Let_def split: prod.split) (metis fst_conv length_siftup_loop)

lemma length_heappush [simp]: "length (heappush cmp a x) = Suc (length a)"
  by (simp add: heappush_def)

lemma length_heappop: "a \<noteq> [] \<Longrightarrow> length (snd (heappop cmp a)) = length a - 1"
  by (cases a rule: rev_cases) (simp_all add: heappop_def Let_def)

lemma heappop_length:
  "(r, h1) = heappop cmp h \<Longrightarrow> h \<noteq> [] \<Longrightarrow> Suc (length h1) = length h"
  using length_heappop[of h cmp] by (cases h) (auto simp: snd_def split: prod.splits)

lemma heappop_None: "(fst (heappop cmp a) = None) = (a = [])"
  by (simp add: heappop_def Let_def)

lemma sum_list_update_less:
  "i < length its \<Longrightarrow> its ! i = x # r \<Longrightarrow>
   sum_list (map length (its[i := r])) < sum_list (map length its)"
proof (induction its arbitrary: i)
  case Nil
  then show ?case by simp
next
  case (Cons a its)
  then show ?case by (cases i) auto
qed

text \<open>
  The \<open>while\<close> loop. \<open>if (!record) break\<close> and \<open>if (!iterator) break\<close> leave the loop
  with the map built so far; an exhausted iterator stays exhausted.
\<close>

function mergeLoop ::
  "(StrokeData \<times> nat) list \<Rightarrow> StrokeData list list \<Rightarrow> (string, Stroke) OrderedMap
   \<Rightarrow> (string, Stroke) OrderedMap" where
  "mergeLoop h its m =
     (if length h > 0 then
        (case heappop cmpTs h of
           (None, h1) \<Rightarrow> m
         | (Some (stroke, index), h1) \<Rightarrow>
             (let m1 = resolve stroke m
              in if index < length its then
                   (case its ! index of
                      [] \<Rightarrow> mergeLoop h1 its m1
                    | x # r \<Rightarrow> mergeLoop (heappush cmpTs h1 (x, index)) (its[index := r]) m1)
                 else m1))
      else m)"
  by pat_completeness auto
termination
proof (relation "measure (\<lambda>(h, its, m). length h + sum_list (map length its))", goal_cases)
  case 1
  show ?case by simp
next
  case (2 h its m x y x2 stroke index m1)
  then show ?case using heappop_length[of x y cmpTs h] by simp
next
  case (3 h its m x y x2 stroke index m1 a r)
  then show ?case
    using heappop_length[of x y cmpTs h] sum_list_update_less[of index its a r] by simp
qed

declare mergeLoop.simps [simp del]

definition mergeStates :: "'n DrawState list \<Rightarrow> (string, Stroke) OrderedMap" where
  "mergeStates states =
     (let iterators = map (\<lambda>ds. om_values (getStrokeMap ds)) states;
          (heap, its) = pushHeads 0 iterators []
      in mergeLoop heap its [])"

section \<open>A concrete environment and page for the worked examples\<close>

text \<open>
  \<open>env0\<close> hands out the UIDs \<open>u\<close>, \<open>uu\<close>, \<open>uuu\<close>, ... and the clock readings 100, 101, ...;
  \<open>page0\<close> is the empty page of width 1000 and ratio 2.
\<close>

definition env0 :: Env where
  "env0 = \<lparr>v4_seq = (\<lambda>n. replicate (Suc n) CHR ''u''), now_seq = (\<lambda>n. 100 + int n),
            v4_count = 0, now_count = 0,
            v5 = (\<lambda>name ns. ns @ ''/'' @ name), validate = (\<lambda>u. True)\<rparr>"

definition page0 :: "int DrawState" where
  "page0 = createEmpty 2 1000"

section \<open>Properties of the history operations\<close>

lemma set_undoStack_sel [simp]:
  "strokes (set_undoStack us r) = strokes r"
  "mutationPairs (set_undoStack us r) = mutationPairs r"
  "undoStack (set_undoStack us r) = us"
  "historyStack (set_undoStack us r) = historyStack r"
  by (cases r; simp)+

lemma set_historyStack_sel [simp]:
  "strokes (set_historyStack hs r) = strokes r"
  "mutationPairs (set_historyStack hs r) = mutationPairs r"
  "undoStack (set_historyStack hs r) = undoStack r"
  "historyStack (set_historyStack hs r) = hs"
  by (cases r; simp)+

lemma set_strokes_sel [simp]:
  "strokes (set_strokes s r) = s"
  "mutationPairs (set_strokes s r) = mutationPairs r"
  "undoStack (set_strokes s r) = undoStack r"
  "historyStack (set_strokes s r) = historyStack r"
  by (cases r; simp)+

lemma set_mutationPairs_sel [simp]:
  "strokes (set_mutationPairs mp r) = strokes r"
  "mutationPairs (set_mutationPairs mp r) = mp"
  "undoStack (set_mutationPairs mp r) = undoStack r"
  "historyStack (set_mutationPairs mp r) = historyStack r"
  by (cases r; simp)+

lemma delete_undoStack_sel [simp]:
  "strokes (delete_undoStack r) = strokes r"
  "mutationPairs (delete_undoStack r) = mutationPairs r"
  "undoStack (delete_undoStack r) = []"
  "historyStack (delete_undoStack r) = historyStack r"
  by (simp_all add: delete_undoStack_def)

lemma undo_nonempty:
  "getHistoryStack ds \<noteq> [] \<Longrightarrow>
   undo ds = \<lparr>immutable = set_undoStack (immutable ds # getUndoStack ds) (last (getHistoryStack ds)),
              width = width ds, height = height ds, lastOp = Some Op_undo\<rparr>"
  by (simp add: undo_def Let_def split: list.split)

text \<open>
  Claim C3. For every snapshot with a non-empty history, and so for every snapshot
  reached by content operations, \<open>undo\<close> followed by \<open>redo\<close> gives back the pre-undo
  record: the same item map (UIDs, payloads and order), and the same history and undo
  stacks.
\<close>

theorem undo_redo_roundtrip:
  "getHistoryStack ds \<noteq> [] \<Longrightarrow>
     immutable (redo (undo ds)) = immutable ds \<and>
     getStrokeMap (redo (undo ds)) = getStrokeMap ds \<and>
     width (redo (undo ds)) = width ds \<and> height (redo (undo ds)) = height ds"
  by (simp add: undo_nonempty redo_def getUndoStack_def getStrokeMap_def)

theorem undo_redo_roundtrip_witness:
  "getHistoryStack (fst (addStroke page0 ''p1'' env0)) \<noteq> [] \<and>
   getStrokeMap (redo (undo (fst (addStroke page0 ''p1'' env0)))) =
     [(''u'', STROKE \<lparr>uid = ''u'', pathData = ''p1'', timestamp = 100\<rparr>)]"
proof -
  have h: "getHistoryStack (fst (addStroke page0 ''p1'' env0)) \<noteq> []"
    by (simp add: addStroke_def page0_def env0_def createEmpty_def v4_def Date_now_def
        pushStroke_def defaultFactory_def getHistoryStack_def)
  have s: "getStrokeMap (fst (addStroke page0 ''p1'' env0)) =
     [(''u'', STROKE \<lparr>uid = ''u'', pathData = ''p1'', timestamp = 100\<rparr>)]"
    by (simp add: addStroke_def page0_def env0_def createEmpty_def v4_def Date_now_def
        pushStroke_def defaultFactory_def getStrokeMap_def)
  show ?thesis using undo_redo_roundtrip [OF h] h s by simp
qed

section \<open>Frame properties of the operations\<close>

lemma pushStroke_fields [simp]:
  "width (pushStroke ds s) = width ds"
  "height (pushStroke ds s) = height ds"
  "getUndoStack (pushStroke ds s) = []"
  "getHistoryStack (pushStroke ds s) = getHistoryStack ds @ [immutable ds]"
  "getStrokeMap (pushStroke ds s) = om_set (uid s) (STROKE s) (getStrokeMap ds)"
  "getMutationPairs (pushStroke ds s) = getMutationPairs ds"
  by (simp_all add: pushStroke_def Let_def getUndoStack_def getHistoryStack_def
      getStrokeMap_def getMutationPairs_def)

lemma pushStrokeList_fields [simp]:
  "width (pushStrokeList ds ss) = width ds"
  "height (pushStrokeList ds ss) = height ds"
  "getUndoStack (pushStrokeList ds ss) = getUndoStack ds"
  "getHistoryStack (pushStrokeList ds ss) = getHistoryStack ds"
  "getStrokeMap (pushStrokeList ds ss) =
     om_merge (map (\<lambda>stroke. (uid stroke, STROKE stroke)) ss) (getStrokeMap ds)"
  "getMutationPairs (pushStrokeList ds ss) = getMutationPairs ds"
  by (simp_all add: pushStrokeList_def Let_def getUndoStack_def getHistoryStack_def
      getStrokeMap_def getMutationPairs_def)

lemma eraseStrokes_nonempty:
  "erased \<noteq> [] \<Longrightarrow>
   fst (eraseStrokes ds erased e) =
     \<lparr>immutable =
        delete_undoStack
          (set_historyStack (getHistoryStack ds @ [immutable ds])
             (set_strokes
                (fst (insertHidden (filter (\<lambda>u. \<not> om_has (getStrokeMap ds) u) erased)
                        (om_deleteAll erased (getStrokeMap ds)) e))
                (immutable ds))),
      width = width ds, height = height ds, lastOp = Some (Op_erase erased)\<rparr>"
  by (simp add: eraseStrokes_def Let_def getHistoryStack_def split: prod.split)

lemma eraseStrokes_fields:
  "width (fst (eraseStrokes ds erased e)) = width ds"
  "height (fst (eraseStrokes ds erased e)) = height ds"
  "erased \<noteq> [] \<Longrightarrow> getUndoStack (fst (eraseStrokes ds erased e)) = []"
  "erased \<noteq> [] \<Longrightarrow>
     getHistoryStack (fst (eraseStrokes ds erased e)) = getHistoryStack ds @ [immutable ds]"
  "erased \<noteq> [] \<Longrightarrow> getMutationPairs (fst (eraseStrokes ds erased e)) = getMutationPairs ds"
  by (cases "erased = []";
      simp add: eraseStrokes_nonempty getUndoStack_def getHistoryStack_def getMutationPairs_def,
      (simp add: eraseStrokes_def)?)+

lemma mutateStrokes_nonempty:
  "mutations \<noteq> [] \<Longrightarrow>
   fst (mutateStrokes ds mutations tsArg e) =
     (let te = (case tsArg of None \<Rightarrow> Date_now e | Some t \<Rightarrow> (t, e));
          r = applyMutations (fst te) mutations (getStrokeMap ds, getMutationPairs ds) (snd te)
      in \<lparr>immutable =
            delete_undoStack
              (set_historyStack (getHistoryStack ds @ [immutable ds])
                 (set_mutationPairs (snd (fst r)) (set_strokes (fst (fst r)) (immutable ds)))),
          width = width ds, height = height ds, lastOp = Some (Op_mutate mutations (fst te))\<rparr>)"
  by (simp add: mutateStrokes_def Let_def getHistoryStack_def split: prod.split)

lemma mutateStrokes_fields:
  "width (fst (mutateStrokes ds mutations tsArg e)) = width ds"
  "height (fst (mutateStrokes ds mutations tsArg e)) = height ds"
  "mutations \<noteq> [] \<Longrightarrow> getUndoStack (fst (mutateStrokes ds mutations tsArg e)) = []"
  "mutations \<noteq> [] \<Longrightarrow>
     getHistoryStack (fst (mutateStrokes ds mutations tsArg e)) =
       getHistoryStack ds @ [immutable ds]"
  by (cases "mutations = []";
      simp add: mutateStrokes_nonempty Let_def getUndoStack_def getHistoryStack_def,
      (simp add: mutateStrokes_def split: prod.split)?)+

lemma splitStrokes_fields:
  "width (splitStrokes ds splitters e) = width ds"
  "height (splitStrokes ds splitters e) = height ds"
  "getUndoStack (splitStrokes ds splitters e) = getUndoStack ds"
  "splitters \<noteq> [] \<Longrightarrow>
     getHistoryStack (splitStrokes ds splitters e) = getHistoryStack ds @ [immutable ds]"
  "getMutationPairs (splitStrokes ds splitters e) = getMutationPairs ds"
  by (simp_all add: splitStrokes_def Let_def getUndoStack_def getHistoryStack_def
      getMutationPairs_def)

lemma undo_fields:
  "width (undo ds) = width ds" "height (undo ds) = height ds"
  by (simp_all add: undo_def Let_def split: list.split)

lemma redo_fields:
  "width (redo ds) = width ds" "height (redo ds) = height ds"
  by (simp_all add: redo_def split: list.split)

lemma pushOperation_fields:
  "width (fst (pushOperation ds op e)) = width ds"
  "height (fst (pushOperation ds op e)) = height ds"
  by (cases op; simp add: pushOperation_def eraseStrokes_fields mutateStrokes_fields
      splitStrokes_fields undo_fields redo_fields)+

text \<open>
  Claim C9. Every operation returns a snapshot with the page dimensions of its input:
  \<open>pushStroke\<close>, \<open>pushStrokeList\<close>, \<open>eraseStrokes\<close>, \<open>mutateStrokes\<close>, \<open>splitStrokes\<close>,
  \<open>undo\<close>, \<open>redo\<close>, and \<open>pushOperation\<close> with any operation, an unknown tag included.
\<close>

theorem operations_preserve_dimensions:
  "width (pushStroke ds stroke) = width ds \<and> height (pushStroke ds stroke) = height ds \<and>
   width (pushStrokeList ds strokeList) = width ds \<and>
   height (pushStrokeList ds strokeList) = height ds \<and>
   width (fst (eraseStrokes ds erased e)) = width ds \<and>
   height (fst (eraseStrokes ds erased e)) = height ds \<and>
   width (fst (mutateStrokes ds mutations tsArg e)) = width ds \<and>
   height (fst (mutateStrokes ds mutations tsArg e)) = height ds \<and>
   width (splitStrokes ds splitters e) = width ds \<and>
   height (splitStrokes ds splitters e) = height ds \<and>
   width (undo ds) = width ds \<and> height (undo ds) = height ds \<and>
   width (redo ds) = width ds \<and> height (redo ds) = height ds \<and>
   width (fst (pushOperation ds op e)) = width ds \<and>
   height (fst (pushOperation ds op e)) = height ds"
  by (simp add: eraseStrokes_fields mutateStrokes_fields splitStrokes_fields undo_fields
      redo_fields pushOperation_fields)

text \<open>
  Worked example of the specification: two strokes are added to \<open>page0\<close> and the
  second is undone, so that \<open>page3\<close> holds one stroke, one history entry and one
  undo entry.
\<close>

definition page1 :: "int DrawState \<times> Env" where
  "page1 = addStroke page0 ''p1'' env0"

definition page2 :: "int DrawState \<times> Env" where
  "page2 = addStroke (fst page1) ''p2'' (snd page1)"

definition page3 :: "int DrawState" where
  "page3 = undo (fst page2)"

lemmas example_defs =
  page0_def page1_def page2_def page3_def env0_def createEmpty_def defaultFactory_def
  addStroke_def v4_def Date_now_def pushStroke_def

lemma page3_undoStack: "getUndoStack page3 =
  [DrawStateRecord
    [(''u'', STROKE \<lparr>uid = ''u'', pathData = ''p1'', timestamp = 100\<rparr>),
     (''uu'', STROKE \<lparr>uid = ''uu'', pathData = ''p2'', timestamp = 101\<rparr>)]
    [] []
    [DrawStateRecord [] [] [] [],
     DrawStateRecord [(''u'', STROKE \<lparr>uid = ''u'', pathData = ''p1'', timestamp = 100\<rparr>)] [] []
      [DrawStateRecord [] [] [] []]]]"
  by (simp add: example_defs undo_def Let_def getUndoStack_def getHistoryStack_def
      delete_undoStack_def)

text \<open>
  On the empty list \<open>eraseStrokes\<close> and \<open>mutateStrokes\<close> return their input at once
  (\<open>if (erased.length === 0) return drawState\<close>, and the same test on \<open>mutations\<close>), so
  the undo entry of \<open>page3\<close> is still there in the result.
\<close>

theorem empty_list_keeps_undoStack_counterexample:
  "getUndoStack page3 \<noteq> [] \<and>
   getUndoStack (fst (eraseStrokes page3 [] (snd page2))) \<noteq> [] \<and>
   getUndoStack (fst (mutateStrokes page3 [] None (snd page2))) \<noteq> [] \<and>
   getUndoStack (fst (mutateStrokes page3 [] (Some 7) (snd page2))) \<noteq> []"
  using page3_undoStack
  by (simp add: eraseStrokes_def mutateStrokes_def Let_def split: prod.split)

text \<open>
  Claim C4, as amended. With a non-empty splitter list \<open>splitStrokes\<close> pushes the previous
  record onto \<open>historyStack\<close> and returns the \<open>undoStack\<close> of its input. \<open>pushStroke\<close>
  returns an empty \<open>undoStack\<close>, and so do \<open>eraseStrokes\<close> and \<open>mutateStrokes\<close> when
  their list is not empty; on the empty list they return the input snapshot itself, its
  \<open>undoStack\<close> included.
\<close>

theorem split_keeps_undoStack:
  "(splitters \<noteq> [] \<longrightarrow>
      getUndoStack (splitStrokes ds splitters e) = getUndoStack ds \<and>
      getHistoryStack (splitStrokes ds splitters e) = getHistoryStack ds @ [immutable ds]) \<and>
   (erased \<noteq> [] \<longrightarrow> getUndoStack (fst (eraseStrokes ds erased e)) = []) \<and>
   (mutations \<noteq> [] \<longrightarrow> getUndoStack (fst (mutateStrokes ds mutations tsArg e)) = []) \<and>
   getUndoStack (pushStroke ds stroke) = [] \<and>
   fst (eraseStrokes ds [] e) = ds \<and>
   fst (mutateStrokes ds [] tsArg e) = ds"
proof -
  have "fst (eraseStrokes ds [] e) = ds" by (simp add: eraseStrokes_def)
  moreover have "fst (mutateStrokes ds [] tsArg e) = ds"
    by (simp add: mutateStrokes_def Let_def split: prod.split option.split)
  ultimately show ?thesis
    by (simp add: splitStrokes_fields eraseStrokes_fields mutateStrokes_fields)
qed

theorem split_keeps_undoStack_witness:
  "[(''u'', [''a'', ''b''])] \<noteq> [] \<and> getUndoStack page3 \<noteq> [] \<and>
   getUndoStack (splitStrokes page3 [(''u'', [''a'', ''b''])] (snd page2)) = getUndoStack page3 \<and>
   [''u''] \<noteq> [] \<and> getUndoStack (fst (eraseStrokes page3 [''u''] (snd page2))) = [] \<and>
   [(''u'', ''q'')] \<noteq> [] \<and>
   getUndoStack (fst (mutateStrokes page3 [(''u'', ''q'')] None (snd page2))) = [] \<and>
   getUndoStack (pushStroke page3 \<lparr>uid = ''v'', pathData = ''p3'', timestamp = 102\<rparr>) = [] \<and>
   fst (eraseStrokes page3 [] (snd page2)) = page3 \<and>
   fst (mutateStrokes page3 [] None (snd page2)) = page3"
  using split_keeps_undoStack [of "[(''u'', [''a'', ''b''])]" page3 "snd page2" "[''u'']"
      "[(''u'', ''q'')]" None "\<lparr>uid = ''v'', pathData = ''p3'', timestamp = 102\<rparr>"]
    page3_undoStack
  by simp

section \<open>\<open>eraseStrokes\<close>\<close>

lemma om_set_fresh: "k \<notin> fst ` set m \<Longrightarrow> om_set k v m = m @ [(k, v)]"
  by (induction m) auto

lemma om_deleteAll_filter: "om_deleteAll ks m = filter (\<lambda>en. fst en \<notin> set ks) m"
proof (induction ks arbitrary: m)
  case Nil
  then show ?case by (simp add: om_deleteAll_def)
next
  case (Cons k ks)
  have "om_deleteAll (k # ks) m = om_deleteAll ks (om_delete k m)"
    by (simp add: om_deleteAll_def)
  also have "\<dots> = filter (\<lambda>en. fst en \<notin> set ks) (filter (\<lambda>en. fst en \<noteq> k) m)"
    by (simp add: Cons.IH om_delete_def)
  also have "\<dots> = filter (\<lambda>en. fst en \<notin> set (k # ks)) m"
    by (simp add: conj_commute)
  finally show ?case .
qed

lemma om_has_iff: "om_has m k = (k \<in> fst ` set m)"
  by (simp add: om_has_def om_get_def map_of_eq_None_iff)

text \<open>
  The UIDs the next \<open>n\<close> calls of \<open>v4()\<close> return, and the tombstones \<open>eraseStrokes\<close>
  builds from them: the \<open>i\<close>-th absent UID gets the \<open>i\<close>-th fresh UID and clock reading.
\<close>

definition freshUids :: "Env \<Rightarrow> nat \<Rightarrow> string list" where
  "freshUids e n = map (\<lambda>i. v4_seq e (v4_count e + i)) [0..<n]"

definition tombstones :: "Env \<Rightarrow> string list \<Rightarrow> (string \<times> StrokeData) list" where
  "tombstones e hs =
     map (\<lambda>i. (v4_seq e (v4_count e + i),
               HIDE (v4_seq e (v4_count e + i)) (hs ! i) (now_seq e (now_count e + i))))
       [0..<length hs]"

lemma freshUids_Suc:
  "freshUids e (Suc n) = v4_seq e (v4_count e) # freshUids (snd (Date_now (snd (v4 e)))) n"
  by (simp add: freshUids_def v4_def Date_now_def upt_conv_Cons map_Suc_upt[symmetric] del: upt_Suc)

lemma tombstones_Cons:
  "tombstones e (h # hs) =
     (v4_seq e (v4_count e), HIDE (v4_seq e (v4_count e)) h (now_seq e (now_count e)))
     # tombstones (snd (Date_now (snd (v4 e)))) hs"
  by (simp add: tombstones_def v4_def Date_now_def upt_conv_Cons map_Suc_upt[symmetric] del: upt_Suc)

lemma insertHidden_fresh:
  "distinct (freshUids e (length hs)) \<Longrightarrow>
   set (freshUids e (length hs)) \<inter> fst ` set s = {} \<Longrightarrow>
   fst (insertHidden hs s e) = s @ tombstones e hs"
proof (induction hs arbitrary: s e)
  case Nil
  then show ?case by (simp add: tombstones_def)
next
  case (Cons h hs)
  let ?u = "v4_seq e (v4_count e)"
  let ?e2 = "snd (Date_now (snd (v4 e)))"
  let ?s1 = "s @ [(?u, HIDE ?u h (now_seq e (now_count e)))]"
  from Cons.prems have fresh: "?u \<notin> fst ` set s" "?u \<notin> set (freshUids ?e2 (length hs))"
    "distinct (freshUids ?e2 (length hs))" "set (freshUids ?e2 (length hs)) \<inter> fst ` set s = {}"
    by (auto simp: freshUids_Suc)
  have step: "insertHidden (h # hs) s e = insertHidden hs ?s1 ?e2"
    using fresh(1) by (simp add: v4_def Date_now_def om_set_fresh)
  have "set (freshUids ?e2 (length hs)) \<inter> fst ` set ?s1 = {}"
    using fresh by auto
  from Cons.IH[OF fresh(3) this]
  have "fst (insertHidden hs ?s1 ?e2) = ?s1 @ tombstones ?e2 hs" .
  then show ?case unfolding step tombstones_Cons by simp
qed

lemma page3_strokes:
  "getStrokeMap page3 = [(''u'', STROKE \<lparr>uid = ''u'', pathData = ''p1'', timestamp = 100\<rparr>)]"
  by (simp add: example_defs undo_def Let_def getUndoStack_def getHistoryStack_def
      getStrokeMap_def delete_undoStack_def)

lemma page2_env: "snd page2 = env0\<lparr>v4_count := 2, now_count := 2\<rparr>"
  by (simp add: example_defs)

text \<open>
  Claim C5. \<open>eraseStrokes\<close> returns its input for the empty list. For a non-empty list,
  with \<open>v4()\<close> returning fresh UIDs (pairwise distinct, no key of the item map and no
  listed UID): the entries of the listed UIDs are deleted and the other entries keep
  their order; for every listed UID that was absent a \<open>HIDE\<close> item with a fresh UID and
  that UID as \<open>originUid\<close> is appended; the previous record is pushed onto
  \<open>historyStack\<close> and \<open>undoStack\<close> is emptied.
\<close>

theorem eraseStrokes_spec:
  "eraseStrokes ds [] e = (ds, e) \<and>
   (erased \<noteq> [] \<and>
    hidden = filter (\<lambda>u. \<not> om_has (getStrokeMap ds) u) erased \<and>
    distinct (freshUids e (length hidden)) \<and>
    set (freshUids e (length hidden)) \<inter> (set (om_keys (getStrokeMap ds)) \<union> set erased) = {}
    \<longrightarrow>
      getStrokeMap (fst (eraseStrokes ds erased e)) =
        filter (\<lambda>en. fst en \<notin> set erased) (getStrokeMap ds) @ tombstones e hidden \<and>
      (\<forall>u \<in> set erased. \<not> om_has (getStrokeMap (fst (eraseStrokes ds erased e))) u) \<and>
      (\<forall>u \<in> set hidden. \<exists>k ts. k \<in> set (freshUids e (length hidden)) \<and>
          om_get (getStrokeMap (fst (eraseStrokes ds erased e))) k = Some (HIDE k u ts)) \<and>
      getMutationPairs (fst (eraseStrokes ds erased e)) = getMutationPairs ds \<and>
      getHistoryStack (fst (eraseStrokes ds erased e)) = getHistoryStack ds @ [immutable ds] \<and>
      getUndoStack (fst (eraseStrokes ds erased e)) = [])"
proof (intro conjI impI)
  show "eraseStrokes ds [] e = (ds, e)" by (simp add: eraseStrokes_def)
next
  assume a: "erased \<noteq> [] \<and>
    hidden = filter (\<lambda>u. \<not> om_has (getStrokeMap ds) u) erased \<and>
    distinct (freshUids e (length hidden)) \<and>
    set (freshUids e (length hidden)) \<inter> (set (om_keys (getStrokeMap ds)) \<union> set erased) = {}"
  let ?kept = "filter (\<lambda>en. fst en \<notin> set erased) (getStrokeMap ds)"
  have fr: "set (freshUids e (length hidden)) \<inter> fst ` set ?kept = {}"
    using a by (auto simp: om_keys_def)
  with a have ins: "fst (insertHidden hidden ?kept e) = ?kept @ tombstones e hidden"
    by (intro insertHidden_fresh) auto
  show m: "getStrokeMap (fst (eraseStrokes ds erased e)) = ?kept @ tombstones e hidden"
    using a ins by (simp add: eraseStrokes_nonempty getStrokeMap_def om_deleteAll_filter)
  have tf: "map fst (tombstones e hidden) = freshUids e (length hidden)"
    by (simp add: tombstones_def freshUids_def)
  then have "fst ` set (tombstones e hidden) = set (freshUids e (length hidden))"
    by (metis set_map)
  with a show "\<forall>u \<in> set erased. \<not> om_has (getStrokeMap (fst (eraseStrokes ds erased e))) u"
    by (auto simp: m om_has_iff image_Un)
  show "\<forall>u \<in> set hidden. \<exists>k ts. k \<in> set (freshUids e (length hidden)) \<and>
          om_get (getStrokeMap (fst (eraseStrokes ds erased e))) k = Some (HIDE k u ts)"
  proof
    fix u assume "u \<in> set hidden"
    then obtain i where i: "i < length hidden" "hidden ! i = u"
      by (auto simp: in_set_conv_nth)
    let ?k = "v4_seq e (v4_count e + i)"
    have k: "?k \<in> set (freshUids e (length hidden))"
      using i by (auto simp: freshUids_def)
    have "(?k, HIDE ?k u (now_seq e (now_count e + i))) \<in> set (tombstones e hidden)"
      using i by (auto simp: tombstones_def)
    moreover have "distinct (map fst (tombstones e hidden))"
      unfolding tf using a by blast
    ultimately have "map_of (tombstones e hidden) ?k
        = Some (HIDE ?k u (now_seq e (now_count e + i)))"
      by (intro map_of_is_SomeI) auto
    moreover have "map_of ?kept ?k = None"
      using fr k by (auto simp: map_of_eq_None_iff)
    ultimately have "map_of (?kept @ tombstones e hidden) ?k
        = Some (HIDE ?k u (now_seq e (now_count e + i)))"
      by (simp add: map_add_def)
    with k show "\<exists>k ts. k \<in> set (freshUids e (length hidden)) \<and>
          om_get (getStrokeMap (fst (eraseStrokes ds erased e))) k = Some (HIDE k u ts)"
      unfolding m om_get_def by blast
  qed
  from a show "getMutationPairs (fst (eraseStrokes ds erased e)) = getMutationPairs ds"
    "getHistoryStack (fst (eraseStrokes ds erased e)) = getHistoryStack ds @ [immutable ds]"
    "getUndoStack (fst (eraseStrokes ds erased e)) = []"
    by (simp_all add: eraseStrokes_fields)
qed

theorem eraseStrokes_spec_witness:
  "eraseStrokes page3 [] (snd page2) = (page3, snd page2) \<and>
   [''u'', ''zz''] \<noteq> [] \<and>
   [''zz''] = filter (\<lambda>u. \<not> om_has (getStrokeMap page3) u) [''u'', ''zz''] \<and>
   distinct (freshUids (snd page2) (length [''zz''])) \<and>
   set (freshUids (snd page2) (length [''zz''])) \<inter>
     (set (om_keys (getStrokeMap page3)) \<union> set [''u'', ''zz'']) = {} \<and>
   getStrokeMap (fst (eraseStrokes page3 [''u'', ''zz''] (snd page2))) =
     [(''uuu'', HIDE ''uuu'' ''zz'' 102)] \<and>
   getUndoStack (fst (eraseStrokes page3 [''u'', ''zz''] (snd page2))) = []"
proof -
  have h: "[''u'', ''zz''] \<noteq> [] \<and>
     [''zz''] = filter (\<lambda>u. \<not> om_has (getStrokeMap page3) u) [''u'', ''zz''] \<and>
     distinct (freshUids (snd page2) (length [''zz''])) \<and>
     set (freshUids (snd page2) (length [''zz''])) \<inter>
       (set (om_keys (getStrokeMap page3)) \<union> set [''u'', ''zz'']) = {}"
    by (simp add: page3_strokes page2_env om_has_def om_get_def om_keys_def freshUids_def env0_def)
  have t: "tombstones (snd page2) [''zz''] = [(''uuu'', HIDE ''uuu'' ''zz'' 102)]"
    by (simp add: tombstones_def page2_env env0_def)
  show ?thesis
    using eraseStrokes_spec [of page3 "snd page2" "[''u'', ''zz'']" "[''zz'']"] h
    by (simp add: t page3_strokes)
qed

section \<open>Correctness of the heap operations under the timestamp comparator\<close>

text \<open>
  The comparator orders heap entries by the timestamp of their item. \<open>is_heap\<close> is the
  heap property of the array: no entry has a smaller timestamp than its parent.
\<close>

definition key :: "StrokeData \<times> nat \<Rightarrow> int" where
  "key a = sd_timestamp (fst a)"

definition is_heap :: "(StrokeData \<times> nat) list \<Rightarrow> bool" where
  "is_heap h = (\<forall>i<length h. 0 < i \<longrightarrow> key (h ! ((i - 1) div 2)) \<le> key (h ! i))"

lemma cmpTs_less: "(cmpTs a b < 0) = (key a < key b)"
  by (simp add: cmpTs_def key_def)

lemma parent_less: "0 < c \<Longrightarrow> (c - 1) div 2 < (c::nat)"
  by arith

lemma siftdown_loop_step:
  "0 < p \<Longrightarrow> key x < key (a ! ((p - 1) div 2)) \<Longrightarrow>
   siftdown_loop cmpTs x a 0 p = siftdown_loop cmpTs x (a[p := a ! ((p - 1) div 2)]) 0 ((p - 1) div 2)"
  by (subst siftdown_loop.simps) (simp add: cmpTs_less Let_def)

lemma siftdown_loop_stop:
  "\<not> (0 < p \<and> key x < key (a ! ((p - 1) div 2))) \<Longrightarrow> siftdown_loop cmpTs x a 0 p = a[p := x]"
  by (subst siftdown_loop.simps) (auto simp add: cmpTs_less Let_def)

lemma siftdown_loop_heap:
  assumes "p < length a"
    and "\<forall>i<length a. 0 < i \<and> i \<noteq> p \<longrightarrow> key (a ! ((i - 1) div 2)) \<le> key (a ! i)"
    and "\<forall>c<length a. 0 < c \<and> (c - 1) div 2 = p \<longrightarrow> key x \<le> key (a ! c)"
    and "0 < p \<longrightarrow> (\<forall>c<length a. 0 < c \<and> (c - 1) div 2 = p \<longrightarrow>
            key (a ! ((p - 1) div 2)) \<le> key (a ! c))"
  shows "is_heap (siftdown_loop cmpTs x a 0 p)"
  using assms
proof (induction p arbitrary: a rule: less_induct)
  case (less p)
  let ?q = "(p - 1) div 2"
  show ?case
  proof (cases "0 < p \<and> key x < key (a ! ?q)")
    case True
    then have qp: "?q < p" by auto
    let ?a = "a[p := a ! ?q]"
    have len: "length ?a = length a" by simp
    have I1: "\<forall>i<length ?a. 0 < i \<and> i \<noteq> ?q \<longrightarrow> key (?a ! ((i - 1) div 2)) \<le> key (?a ! i)"
    proof (intro allI impI)
      fix i assume i: "i < length ?a" "0 < i \<and> i \<noteq> ?q"
      show "key (?a ! ((i - 1) div 2)) \<le> key (?a ! i)"
      proof (cases "i = p")
        case True
        with less.prems(1) qp show ?thesis by simp
      next
        case ip: False
        show ?thesis
        proof (cases "(i - 1) div 2 = p")
          case True
          with less.prems(4) i \<open>0 < p \<and> _\<close> ip less.prems(1) show ?thesis by simp
        next
          case False
          with less.prems(2) i ip show ?thesis by simp
        qed
      qed
    qed
    have I2: "\<forall>c<length ?a. 0 < c \<and> (c - 1) div 2 = ?q \<longrightarrow> key x \<le> key (?a ! c)"
    proof (intro allI impI)
      fix c assume c: "c < length ?a" "0 < c \<and> (c - 1) div 2 = ?q"
      show "key x \<le> key (?a ! c)"
      proof (cases "c = p")
        case True
        with True less.prems(1) \<open>0 < p \<and> _\<close> show ?thesis by simp
      next
        case False
        have "c \<noteq> ?q" using c parent_less[of c] by auto
        with less.prems(2) c False have "key (a ! ?q) \<le> key (a ! c)"
          by (metis len)
        with False \<open>0 < p \<and> _\<close> show ?thesis by simp
      qed
    qed
    have I3: "0 < ?q \<longrightarrow> (\<forall>c<length ?a. 0 < c \<and> (c - 1) div 2 = ?q \<longrightarrow>
            key (?a ! ((?q - 1) div 2)) \<le> key (?a ! c))"
    proof (intro allI impI)
      fix c assume q0: "0 < ?q" and c: "c < length ?a" "0 < c \<and> (c - 1) div 2 = ?q"
      have qlen: "?q < length a" using qp less.prems(1) by simp
      have pq: "(?q - 1) div 2 \<noteq> p" using qp q0 parent_less[of ?q] by auto
      have gq: "key (a ! ((?q - 1) div 2)) \<le> key (a ! ?q)"
        using less.prems(2) qlen q0 qp by auto
      show "key (?a ! ((?q - 1) div 2)) \<le> key (?a ! c)"
      proof (cases "c = p")
        case True
        with gq pq less.prems(1) show ?thesis by simp
      next
        case False
        have "c \<noteq> ?q" using c parent_less[of c] by auto
        with less.prems(2) c False have "key (a ! ?q) \<le> key (a ! c)"
          by (metis len)
        with gq pq False show ?thesis by simp
      qed
    qed
    have "is_heap (siftdown_loop cmpTs x ?a 0 ?q)"
      using qp less.prems(1) by (intro less.IH[OF qp _ I1 I2 I3]) simp
    with True show ?thesis by (simp add: siftdown_loop_step)
  next
    case False
    have "is_heap (a[p := x])"
      unfolding is_heap_def
    proof (intro allI impI)
      fix i assume i: "i < length (a[p := x])" "0 < i"
      show "key (a[p := x] ! ((i - 1) div 2)) \<le> key (a[p := x] ! i)"
      proof (cases "i = p")
        case True
        with False i less.prems(1) show ?thesis by auto
      next
        case ip: False
        show ?thesis
        proof (cases "(i - 1) div 2 = p")
          case True
          with less.prems(3) i ip less.prems(1) show ?thesis by simp
        next
          case False
          with less.prems(2) i ip show ?thesis by simp
        qed
      qed
    qed
    with False show ?thesis by (simp add: siftdown_loop_stop)
  qed
qed

lemma mset_update_swap:
  "p < length a \<Longrightarrow> q < length a \<Longrightarrow> mset (a[p := a ! q, q := x]) = mset (a[p := x])"
  by (cases "p = q") (simp_all add: mset_update nth_list_update)

lemma siftdown_loop_mset:
  "p < length a \<Longrightarrow> mset (siftdown_loop cmpTs x a 0 p) = mset (a[p := x])"
proof (induction p arbitrary: a rule: less_induct)
  case (less p)
  let ?q = "(p - 1) div 2"
  show ?case
  proof (cases "0 < p \<and> key x < key (a ! ?q)")
    case True
    then have qp: "?q < p" by auto
    with less.prems have "mset (siftdown_loop cmpTs x (a[p := a ! ?q]) 0 ?q)
        = mset (a[p := a ! ?q, ?q := x])"
      by (intro less.IH) auto
    also have "\<dots> = mset (a[p := x])"
      using qp less.prems by (intro mset_update_swap) auto
    finally show ?thesis using True by (simp add: siftdown_loop_step)
  next
    case False
    then show ?thesis by (simp add: siftdown_loop_stop)
  qed
qed


lemma child_iff: "(0 < c \<and> (c - 1) div 2 = (p::nat)) = (c = 2 * p + 1 \<or> c = 2 * p + 2)"
  by arith

definition smaller_child :: "(StrokeData \<times> nat) list \<Rightarrow> nat \<Rightarrow> nat" where
  "smaller_child a pos =
     (if 2 * pos + 2 < length a \<and> \<not> key (a ! (2 * pos + 1)) < key (a ! (2 * pos + 2))
      then 2 * pos + 2 else 2 * pos + 1)"

lemma siftup_loop_step:
  "2 * pos + 1 < length a \<Longrightarrow>
   siftup_loop cmpTs a (length a) pos (2 * pos + 1) =
     siftup_loop cmpTs (a[pos := a ! smaller_child a pos]) (length a) (smaller_child a pos)
       (2 * smaller_child a pos + 1)"
  by (subst siftup_loop.simps) (simp add: cmpTs_less Let_def smaller_child_def)

lemma siftup_loop_stop:
  "\<not> 2 * pos + 1 < length a \<Longrightarrow> siftup_loop cmpTs a (length a) pos (2 * pos + 1) = (a, pos)"
  by (subst siftup_loop.simps) simp

lemma smaller_child_props:
  assumes "2 * pos + 1 < length a"
  shows "smaller_child a pos < length a" "pos < smaller_child a pos"
    "smaller_child a pos = 2 * pos + 1 \<or> smaller_child a pos = 2 * pos + 2"
    "\<And>c. c < length a \<Longrightarrow> c = 2 * pos + 1 \<or> c = 2 * pos + 2 \<Longrightarrow>
       key (a ! smaller_child a pos) \<le> key (a ! c)"
  using assms by (auto simp: smaller_child_def)

lemma siftup_loop_heap:
  assumes "pos < length a"
    and "\<forall>i<length a. 0 < i \<and> i \<noteq> pos \<and> (i - 1) div 2 \<noteq> pos \<longrightarrow>
           key (a ! ((i - 1) div 2)) \<le> key (a ! i)"
    and "0 < pos \<longrightarrow> (\<forall>c<length a. 0 < c \<and> (c - 1) div 2 = pos \<longrightarrow>
           key (a ! ((pos - 1) div 2)) \<le> key (a ! c))"
    and "siftup_loop cmpTs a (length a) pos (2 * pos + 1) = (a1, p1)"
  shows "length a1 = length a \<and> p1 < length a \<and> \<not> 2 * p1 + 1 < length a \<and>
         (\<forall>i<length a. 0 < i \<and> i \<noteq> p1 \<longrightarrow> key (a1 ! ((i - 1) div 2)) \<le> key (a1 ! i)) \<and>
         (\<forall>x. mset (a1[p1 := x]) = mset (a[pos := x]))"
  using assms
proof (induction "length a - pos" arbitrary: a pos rule: less_induct)
  case less
  show ?case
  proof (cases "2 * pos + 1 < length a")
    case False
    with less.prems(4) siftup_loop_stop[of pos a] have eq: "a1 = a" "p1 = pos"
      by simp_all
    have "\<forall>i<length a. 0 < i \<and> i \<noteq> pos \<longrightarrow> key (a ! ((i - 1) div 2)) \<le> key (a ! i)"
    proof (intro allI impI)
      fix i assume i: "i < length a" "0 < i \<and> i \<noteq> pos"
      have "(i - 1) div 2 \<noteq> pos"
        using False i child_iff[of i pos] by auto
      with less.prems(2) i show "key (a ! ((i - 1) div 2)) \<le> key (a ! i)" by simp
    qed
    with False less.prems(1) show ?thesis by (simp add: eq)
  next
    case True
    let ?c = "smaller_child a pos"
    let ?a = "a[pos := a ! ?c]"
    note sc = smaller_child_props[OF True]
    have len: "length ?a = length a" by simp
    have J1: "\<forall>i<length ?a. 0 < i \<and> i \<noteq> ?c \<and> (i - 1) div 2 \<noteq> ?c \<longrightarrow>
           key (?a ! ((i - 1) div 2)) \<le> key (?a ! i)"
    proof (intro allI impI)
      fix i assume i: "i < length ?a" "0 < i \<and> i \<noteq> ?c \<and> (i - 1) div 2 \<noteq> ?c"
      show "key (?a ! ((i - 1) div 2)) \<le> key (?a ! i)"
      proof (cases "i = pos")
        case True
        then have "(i - 1) div 2 \<noteq> pos" using i parent_less[of i] by auto
        moreover have "key (a ! ((pos - 1) div 2)) \<le> key (a ! ?c)"
          using less.prems(3) sc(1) sc(3) i True child_iff[of ?c pos] by auto
        ultimately show ?thesis using True less.prems(1) by simp
      next
        case ip: False
        show ?thesis
        proof (cases "(i - 1) div 2 = pos")
          case True
          then have "i = 2 * pos + 1 \<or> i = 2 * pos + 2" using i child_iff[of i pos] by auto
          with sc(4)[of i] i have "key (a ! ?c) \<le> key (a ! i)" by simp
          with True ip less.prems(1) show ?thesis by simp
        next
          case False
          with less.prems(2) i ip show ?thesis by simp
        qed
      qed
    qed
    have J2: "0 < ?c \<longrightarrow> (\<forall>d<length ?a. 0 < d \<and> (d - 1) div 2 = ?c \<longrightarrow>
           key (?a ! ((?c - 1) div 2)) \<le> key (?a ! d))"
    proof (intro allI impI)
      fix d assume d: "d < length ?a" "0 < d \<and> (d - 1) div 2 = ?c"
      have par: "(?c - 1) div 2 = pos" using sc(3) by auto
      have dpos: "d \<noteq> pos" "(d - 1) div 2 \<noteq> pos" using d sc(2) parent_less[of d] by auto
      with less.prems(2) d have "key (a ! ?c) \<le> key (a ! d)" by auto
      with par dpos less.prems(1) show "key (?a ! ((?c - 1) div 2)) \<le> key (?a ! d)" by simp
    qed
    have run: "siftup_loop cmpTs ?a (length ?a) ?c (2 * ?c + 1) = (a1, p1)"
      using less.prems(4) siftup_loop_step[OF True] by simp
    have "length ?a - ?c < length a - pos" using sc(1) sc(2) by simp
    from less.hyps[OF this _ J1 J2 run] sc(1)
    have IH: "length a1 = length a \<and> p1 < length a \<and> \<not> 2 * p1 + 1 < length a \<and>
         (\<forall>i<length a. 0 < i \<and> i \<noteq> p1 \<longrightarrow> key (a1 ! ((i - 1) div 2)) \<le> key (a1 ! i)) \<and>
         (\<forall>x. mset (a1[p1 := x]) = mset (?a[?c := x]))"
      by simp
    moreover have "\<And>x. mset (?a[?c := x]) = mset (a[pos := x])"
      using less.prems(1) sc(1) by (intro mset_update_swap)
    ultimately show ?thesis by simp
  qed
qed


lemma is_heap_root_min: "is_heap h \<Longrightarrow> i < length h \<Longrightarrow> key (h ! 0) \<le> key (h ! i)"
proof (induction i rule: less_induct)
  case (less i)
  show ?case
  proof (cases "i = 0")
    case True
    then show ?thesis by simp
  next
    case False
    then have "(i - 1) div 2 < i" by (simp add: parent_less)
    moreover from this less.prems have "(i - 1) div 2 < length h" by simp
    ultimately have "key (h ! 0) \<le> key (h ! ((i - 1) div 2))"
      using less.IH less.prems(1) by blast
    moreover have "key (h ! ((i - 1) div 2)) \<le> key (h ! i)"
      using less.prems False by (simp add: is_heap_def)
    ultimately show ?thesis by simp
  qed
qed

lemma is_heap_butlast: "is_heap (h @ [x]) \<Longrightarrow> is_heap h"
  unfolding is_heap_def
proof (intro allI impI)
  fix i assume a: "\<forall>i<length (h @ [x]). 0 < i \<longrightarrow>
      key ((h @ [x]) ! ((i - 1) div 2)) \<le> key ((h @ [x]) ! i)" and i: "i < length h" "0 < i"
  then have "(i - 1) div 2 < length h" using parent_less[of i] by simp
  with a i show "key (h ! ((i - 1) div 2)) \<le> key (h ! i)"
    by (metis length_append_singleton less_Suc_eq nth_append)
qed

lemma heappush_heap:
  assumes "is_heap h"
  shows "is_heap (heappush cmpTs h x)" "mset (heappush cmpTs h x) = add_mset x (mset h)"
proof -
  let ?a = "h @ [x]"
  have eq: "heappush cmpTs h x = siftdown_loop cmpTs x ?a 0 (length h)"
    by (simp add: heappush_def siftdown_def)
  have I1: "\<forall>i<length ?a. 0 < i \<and> i \<noteq> length h \<longrightarrow> key (?a ! ((i - 1) div 2)) \<le> key (?a ! i)"
  proof (intro allI impI)
    fix i assume i: "i < length ?a" "0 < i \<and> i \<noteq> length h"
    then have "i < length h" by simp
    moreover from this have "(i - 1) div 2 < length h" using parent_less[of i] i by simp
    ultimately show "key (?a ! ((i - 1) div 2)) \<le> key (?a ! i)"
      using assms i by (simp add: nth_append is_heap_def)
  qed
  have nochild: "\<And>c. c < length ?a \<Longrightarrow> 0 < c \<and> (c - 1) div 2 = length h \<Longrightarrow> False"
  proof -
    fix c assume "c < length ?a" "0 < c \<and> (c - 1) div 2 = length h"
    then show False using parent_less[of c] by simp
  qed
  show "is_heap (heappush cmpTs h x)"
    unfolding eq using I1 nochild by (intro siftdown_loop_heap) auto
  show "mset (heappush cmpTs h x) = add_mset x (mset h)"
    unfolding eq by (subst siftdown_loop_mset) simp_all
qed

lemma heappop_heap:
  assumes "is_heap h" "h \<noteq> []"
  shows "fst (heappop cmpTs h) = Some (h ! 0)"
    "is_heap (snd (heappop cmpTs h))"
    "mset h = add_mset (h ! 0) (mset (snd (heappop cmpTs h)))"
proof -
  from assms(2) obtain h1 l where h: "h = h1 @ [l]" by (cases h rule: rev_cases) auto
  show "fst (heappop cmpTs h) = Some (h ! 0)"
    by (cases h1) (simp_all add: h heappop_def Let_def)
  show "is_heap (snd (heappop cmpTs h)) " "mset h = add_mset (h ! 0) (mset (snd (heappop cmpTs h)))"
  proof -
    have "is_heap (snd (heappop cmpTs h)) \<and>
        mset h = add_mset (h ! 0) (mset (snd (heappop cmpTs h)))"
    proof (cases "h1 = []")
      case True
      then show ?thesis by (simp add: h heappop_def Let_def is_heap_def)
    next
      case False
      let ?a = "h1[0 := l]"
      obtain a1 p1 where run: "siftup_loop cmpTs ?a (length ?a) 0 (2 * 0 + 1) = (a1, p1)"
        by (cases "siftup_loop cmpTs ?a (length ?a) 0 (2 * 0 + 1)") auto
      have h1heap: "is_heap h1" using assms(1) h is_heap_butlast by blast
      have pos: "0 < length ?a" using False by simp
      have J1: "\<forall>i<length ?a. 0 < i \<and> i \<noteq> 0 \<and> (i - 1) div 2 \<noteq> 0 \<longrightarrow>
           key (?a ! ((i - 1) div 2)) \<le> key (?a ! i)"
        using h1heap by (simp add: is_heap_def)
      have J2: "0 < (0::nat) \<longrightarrow> (\<forall>c<length ?a. 0 < c \<and> (c - 1) div 2 = 0 \<longrightarrow>
           key (?a ! ((0 - 1) div 2)) \<le> key (?a ! c))" by simp
      from siftup_loop_heap[OF pos J1 J2 run]
      have R: "length a1 = length h1" "p1 < length h1" "\<not> 2 * p1 + 1 < length h1"
        "\<forall>i<length h1. 0 < i \<and> i \<noteq> p1 \<longrightarrow> key (a1 ! ((i - 1) div 2)) \<le> key (a1 ! i)"
        "\<And>x. mset (a1[p1 := x]) = mset (?a[0 := x])"
        by (simp_all del: split_paired_All)
      let ?b = "a1[p1 := l]"
      have res: "snd (heappop cmpTs h) = siftdown_loop cmpTs l ?b 0 p1"
        using False run R(1,2) by (simp add: h heappop_def Let_def siftup_def siftdown_def)
      have leaf: "\<And>c. c < length ?b \<Longrightarrow> 0 < c \<and> (c - 1) div 2 = p1 \<Longrightarrow> False"
      proof -
        fix c assume c: "c < length ?b" "0 < c \<and> (c - 1) div 2 = p1"
        then have "c = 2 * p1 + 1 \<or> c = 2 * p1 + 2" using child_iff[of c p1] by simp
        with c(1) R(1,3) show False by auto
      qed
      have I1: "\<forall>i<length ?b. 0 < i \<and> i \<noteq> p1 \<longrightarrow> key (?b ! ((i - 1) div 2)) \<le> key (?b ! i)"
      proof (intro allI impI)
        fix i assume i: "i < length ?b" "0 < i \<and> i \<noteq> p1"
        then have "(i - 1) div 2 \<noteq> p1" using leaf by blast
        with R(1,4) i show "key (?b ! ((i - 1) div 2)) \<le> key (?b ! i)" by simp
      qed
      have hp: "is_heap (siftdown_loop cmpTs l ?b 0 p1)"
        using R(1,2) I1 leaf by (intro siftdown_loop_heap) auto
      have "mset (siftdown_loop cmpTs l ?b 0 p1) = mset (?b[p1 := l])"
        using R(1,2) by (intro siftdown_loop_mset) simp
      also have "\<dots> = mset (?a[0 := l])" using R(5)[of l] by simp
      also have "\<dots> = add_mset l (mset h1 - {#h1 ! 0#})"
        using False by (simp add: mset_update)
      finally have "mset (snd (heappop cmpTs h)) = add_mset l (mset h1 - {#h1 ! 0#})"
        by (simp add: res)
      moreover have "h1 ! 0 \<in># mset h1" using False by (cases h1) auto
      moreover have "h ! 0 = h1 ! 0" using False by (simp add: h nth_append)
      ultimately have "mset h = add_mset (h ! 0) (mset (snd (heappop cmpTs h)))"
        by (simp add: h)
      with hp res show ?thesis by simp
    qed
    then show "is_heap (snd (heappop cmpTs h)) "
      "mset h = add_mset (h ! 0) (mset (snd (heappop cmpTs h)))" by simp_all
  qed
qed

section \<open>Unfolding the merge loop\<close>

lemma mergeLoop_Nil [simp]: "mergeLoop [] its m = m"
  by (subst mergeLoop.simps) simp

lemma mergeLoop_step:
  assumes "is_heap h" "h \<noteq> []"
  shows "mergeLoop h its m =
     (let r = h ! 0; h1 = snd (heappop cmpTs h); m1 = resolve (fst r) m
      in if snd r < length its then
           (case its ! snd r of
              [] \<Rightarrow> mergeLoop h1 its m1
            | x # rest \<Rightarrow> mergeLoop (heappush cmpTs h1 (x, snd r)) (its[snd r := rest]) m1)
         else m1)"
proof -
  obtain h1 where pop: "heappop cmpTs h = (Some (h ! 0), h1)"
    using heappop_heap(1)[OF assms] by (cases "heappop cmpTs h") auto
  show ?thesis
    using assms(2)
    by (subst mergeLoop.simps) (simp add: pop Let_def split: prod.split list.split)
qed

lemma heappop_shorter: "h \<noteq> [] \<Longrightarrow> length (snd (heappop cmp h)) < length h"
  using length_heappop[of h cmp] by (cases h) auto

lemma heappush_single [simp]: "heappush cmpTs [] e = [e]"
  by (simp add: heappush_def siftdown_def siftdown_loop_stop)

lemma heappop_single [simp]: "heappop cmpTs [e] = (Some e, [])"
  by (simp add: heappop_def)

lemma is_heap_single [simp]: "is_heap [e]" "is_heap []"
  by (simp_all add: is_heap_def)

lemma mergeLoop_single: "mergeLoop [(x, 0)] [rest] m = fold resolve (x # rest) m"
proof (induction rest arbitrary: x m)
  case Nil
  show ?case by (subst mergeLoop_step) (simp_all add: Let_def)
next
  case (Cons y rest)
  show ?case by (subst mergeLoop_step) (simp_all add: Cons.IH Let_def)
qed

lemma mergeStates_single_fold:
  "mergeStates [ds] = fold resolve (om_values (getStrokeMap ds)) []"
  by (cases "om_values (getStrokeMap ds)") (simp_all add: mergeStates_def mergeLoop_single)


text \<open>
  The same loop, recording at every iteration the heap as the loop test found it and the
  entry popped from it.
\<close>

function mergeTrace ::
  "(StrokeData \<times> nat) list \<Rightarrow> StrokeData list list
   \<Rightarrow> ((StrokeData \<times> nat) list \<times> (StrokeData \<times> nat)) list" where
  "mergeTrace h its =
     (if length h > 0 then
        (case heappop cmpTs h of
           (None, h1) \<Rightarrow> []
         | (Some (stroke, index), h1) \<Rightarrow>
             (h, (stroke, index)) #
             (if index < length its then
                (case its ! index of
                   [] \<Rightarrow> mergeTrace h1 its
                 | x # r \<Rightarrow> mergeTrace (heappush cmpTs h1 (x, index)) (its[index := r]))
              else []))
      else [])"
  by pat_completeness auto
termination
proof (relation "measure (\<lambda>(h, its). length h + sum_list (map length its))", goal_cases)
  case 1
  show ?case by simp
next
  case (2 h its x y x2 stroke index)
  then show ?case using heappop_length[of x y cmpTs h] by simp
next
  case (3 h its x y x2 stroke index a r)
  then show ?case
    using heappop_length[of x y cmpTs h] sum_list_update_less[of index its a r] by simp
qed

declare mergeTrace.simps [simp del]

lemma mergeTrace_Nil [simp]: "mergeTrace [] its = []"
  by (subst mergeTrace.simps) simp

lemma mergeTrace_step:
  assumes "is_heap h" "h \<noteq> []"
  shows "mergeTrace h its =
     (h, h ! 0) #
     (let r = h ! 0; h1 = snd (heappop cmpTs h)
      in if snd r < length its then
           (case its ! snd r of
              [] \<Rightarrow> mergeTrace h1 its
            | x # rest \<Rightarrow> mergeTrace (heappush cmpTs h1 (x, snd r)) (its[snd r := rest]))
         else [])"
proof -
  obtain h1 where pop: "heappop cmpTs h = (Some (h ! 0), h1)"
    using heappop_heap(1)[OF assms] by (cases "heappop cmpTs h") auto
  show ?thesis
    using assms(2)
    by (subst mergeTrace.simps) (simp add: pop Let_def split: prod.split list.split)
qed

lemma mergeLoop_trace:
  "is_heap h \<Longrightarrow> mergeLoop h its m = fold resolve (map (\<lambda>t. fst (snd t)) (mergeTrace h its)) m"
proof (induction "length h + sum_list (map length its)" arbitrary: h its m rule: less_induct)
  case less
  show ?case
  proof (cases "h = []")
    case True
    then show ?thesis by simp
  next
    case False
    let ?r = "h ! 0"
    let ?h1 = "snd (heappop cmpTs h)"
    have h1: "is_heap ?h1" "length ?h1 < length h"
      using heappop_heap(2)[OF less.prems False] heappop_shorter[OF False] by auto
    show ?thesis
    proof (cases "snd ?r < length its")
      case out: False
      then show ?thesis
        by (simp add: mergeLoop_step[OF less.prems False] mergeTrace_step[OF less.prems False] Let_def)
    next
      case True
      show ?thesis
      proof (cases "its ! snd ?r")
        case Nil
        have "mergeLoop ?h1 its (resolve (fst ?r) m) =
            fold resolve (map (\<lambda>t. fst (snd t)) (mergeTrace ?h1 its)) (resolve (fst ?r) m)"
          using h1 by (intro less.hyps) auto
        with True Nil show ?thesis
          by (simp add: mergeLoop_step[OF less.prems False] mergeTrace_step[OF less.prems False] Let_def)
      next
        case (Cons x rest)
        let ?h2 = "heappush cmpTs ?h1 (x, snd ?r)"
        let ?its = "its[snd ?r := rest]"
        have "length ?h2 + sum_list (map length ?its) < length h + sum_list (map length its)"
          using h1(2) sum_list_update_less[OF True Cons] by simp
        moreover have "is_heap ?h2" using h1(1) by (rule heappush_heap)
        ultimately have "mergeLoop ?h2 ?its (resolve (fst ?r) m) =
            fold resolve (map (\<lambda>t. fst (snd t)) (mergeTrace ?h2 ?its)) (resolve (fst ?r) m)"
          by (intro less.hyps) auto
        with True Cons show ?thesis
          by (simp add: mergeLoop_step[OF less.prems False] mergeTrace_step[OF less.prems False] Let_def)
      qed
    qed
  qed
qed

lemma mergeTrace_single:
  "mergeTrace [(x, 0)] [rest] = map (\<lambda>y. ([(y, 0)], (y, 0))) (x # rest)"
proof (induction rest arbitrary: x)
  case Nil
  show ?case by (subst mergeTrace_step) (simp_all add: Let_def)
next
  case (Cons y rest)
  show ?case by (subst mergeTrace_step) (simp_all add: Cons.IH Let_def)
qed

section \<open>The resolution rules and the single-snapshot merge\<close>

lemma om_set_keys: "set (map fst (om_set k v m)) = insert k (set (map fst m))"
  by (induction m) auto

lemma om_set_distinct: "distinct (map fst m) \<Longrightarrow> distinct (map fst (om_set k v m))"
  by (induction m) (auto simp: om_set_keys[simplified])

lemma om_set_present:
  "distinct (map fst m) \<Longrightarrow> k \<in> fst ` set m \<Longrightarrow>
   om_set k v m = map (\<lambda>e. if fst e = k then (k, v) else e) m"
proof (induction m)
  case Nil
  then show ?case by simp
next
  case (Cons e m)
  show ?case
  proof (cases "fst e = k")
    case True
    with Cons.prems(1) have "k \<notin> fst ` set m" by simp
    then have "\<forall>e' \<in> set m. fst e' \<noteq> k" by (metis image_eqI)
    then have "map (\<lambda>e. if fst e = k then (k, v) else e) m = m"
      by (induction m) auto
    with True show ?thesis by simp
  next
    case False
    with Cons show ?thesis by auto
  qed
qed

lemma om_delete_distinct: "distinct (map fst m) \<Longrightarrow> distinct (map fst (om_delete k m))"
  by (simp add: om_delete_def distinct_map_filter)

lemma resolve_distinct: "distinct (map fst m) \<Longrightarrow> distinct (map fst (resolve x m))"
  by (cases x) (auto simp: om_update_def om_set_distinct om_delete_distinct split: option.split)

lemma fold_resolve_distinct:
  "distinct (map fst m) \<Longrightarrow> distinct (map fst (fold resolve xs m))"
  by (induction xs arbitrary: m) (auto simp: resolve_distinct)

text \<open>
  The resolution rules in the words of the specification: a stroke is inserted under
  its own UID or overwrites the entry of that UID where it stands; a tombstone deletes
  its origin; a supersede record replaces the payload of its origin in place and is
  dropped when the origin is absent.
\<close>

fun applyRule_spec :: "(string \<times> Stroke) list \<Rightarrow> StrokeData \<Rightarrow> (string \<times> Stroke) list" where
  "applyRule_spec m (STROKE s) =
     (if uid s \<in> set (map fst m)
      then map (\<lambda>e. if fst e = uid s then (uid s, s) else e) m
      else m @ [(uid s, s)])"
| "applyRule_spec m (HIDE u ou ts) = filter (\<lambda>e. fst e \<noteq> ou) m"
| "applyRule_spec m (MUTATE u ou p ts) =
     map (\<lambda>e. if fst e = ou then (fst e, (snd e)\<lparr>pathData := p\<rparr>) else e) m"

definition foldMerge_spec :: "StrokeData list \<Rightarrow> (string \<times> Stroke) list" where
  "foldMerge_spec items = foldl applyRule_spec [] items"

lemma resolve_MUTATE_absent:
  "om_get m ou = None \<Longrightarrow> resolve (MUTATE u ou p ts) m = m"
  by (simp add: om_update_def)

lemma resolve_MUTATE_present:
  assumes "distinct (map fst m)" "om_get m ou = Some s"
  shows "resolve (MUTATE u ou p ts) m =
     map (\<lambda>e. if fst e = ou then (fst e, (snd e)\<lparr>pathData := p\<rparr>) else e) m"
proof -
  have in_m: "(ou, s) \<in> set m" using assms(2) by (simp add: om_get_def map_of_SomeD)
  then have k: "ou \<in> fst ` set m" by force
  have "\<And>e. e \<in> set m \<Longrightarrow> fst e = ou \<Longrightarrow> snd e = s"
    using assms(1) in_m by (metis eq_key_imp_eq_value prod.collapse)
  then have "map (\<lambda>e. if fst e = ou then (ou, s\<lparr>pathData := p\<rparr>) else e) m =
      map (\<lambda>e. if fst e = ou then (fst e, (snd e)\<lparr>pathData := p\<rparr>) else e) m"
    by (intro map_cong) auto
  then show ?thesis
    using assms by (simp add: om_update_def om_set_present[OF assms(1) k])
qed

lemma resolve_eq_spec: "distinct (map fst m) \<Longrightarrow> resolve x m = applyRule_spec m x"
proof (cases x)
  case (STROKE s)
  assume "distinct (map fst m)"
  then show ?thesis
    using STROKE by (auto simp: om_set_present om_set_fresh)
next
  case (HIDE u ou ts)
  then show ?thesis by (simp add: om_delete_def)
next
  case (MUTATE u ou p ts)
  assume d: "distinct (map fst m)"
  show ?thesis
  proof (cases "om_get m ou")
    case None
    then have "ou \<notin> fst ` set m" by (simp add: om_get_def map_of_eq_None_iff)
    then have "map (\<lambda>e. if fst e = ou then (fst e, (snd e)\<lparr>pathData := p\<rparr>) else e) m = m"
      by (induction m) auto
    with None MUTATE show ?thesis by (simp add: om_update_def)
  next
    case (Some s)
    show ?thesis using resolve_MUTATE_present[OF d Some, of u p ts] MUTATE by simp
  qed
qed

lemma fold_resolve_spec:
  "distinct (map fst m) \<Longrightarrow> fold resolve xs m = foldl applyRule_spec m xs"
  by (induction xs arbitrary: m) (simp_all add: resolve_eq_spec[symmetric] resolve_distinct)

text \<open>A snapshot holding the given items, for the worked examples.\<close>

definition snapshot :: "(string \<times> StrokeData) list \<Rightarrow> int DrawState" where
  "snapshot items =
     \<lparr>immutable = set_strokes items defaultFactory, width = 1000, height = 2000, lastOp = None\<rparr>"

lemma snapshot_values [simp]: "om_values (getStrokeMap (snapshot items)) = map snd items"
  by (simp add: snapshot_def getStrokeMap_def om_values_def)

text \<open>
  Claim C10. For a single input snapshot \<open>mergeStates\<close> pops the items in insertion
  order, whatever their timestamps: every heap the loop sees holds at most one entry,
  and the result is the left fold of the resolution rules over the items, both as the
  loop body applies them and as the specification words them. A tombstone stored last
  removes its target and a supersede record stored last determines the payload of its
  target, whatever their timestamps.
\<close>

theorem single_snapshot_is_fold:
  "mergeStates [ds] = foldMerge_spec (om_values (getStrokeMap ds)) \<and>
   mergeStates [ds] = fold resolve (om_values (getStrokeMap ds)) [] \<and>
   (\<forall>t \<in> set (mergeTrace (fst (pushHeads 0 [om_values (getStrokeMap ds)] []))
                  (snd (pushHeads 0 [om_values (getStrokeMap ds)] []))). length (fst t) \<le> 1) \<and>
   map (\<lambda>t. fst (snd t))
     (mergeTrace (fst (pushHeads 0 [om_values (getStrokeMap ds)] []))
        (snd (pushHeads 0 [om_values (getStrokeMap ds)] []))) = om_values (getStrokeMap ds) \<and>
   (\<forall>xs hu u ts. om_values (getStrokeMap ds) = xs @ [HIDE hu u ts] \<longrightarrow>
       \<not> om_has (mergeStates [ds]) u) \<and>
   (\<forall>xs mu u p ts. om_values (getStrokeMap ds) = xs @ [MUTATE mu u p ts] \<longrightarrow>
       (\<forall>s. om_get (mergeStates [ds]) u = Some s \<longrightarrow> pathData s = p))"
proof (intro conjI allI impI ballI)
  show f: "mergeStates [ds] = fold resolve (om_values (getStrokeMap ds)) []"
    by (rule mergeStates_single_fold)
  then show "mergeStates [ds] = foldMerge_spec (om_values (getStrokeMap ds))"
    by (simp add: foldMerge_spec_def fold_resolve_spec)
  show "map (\<lambda>t. fst (snd t))
     (mergeTrace (fst (pushHeads 0 [om_values (getStrokeMap ds)] []))
        (snd (pushHeads 0 [om_values (getStrokeMap ds)] []))) = om_values (getStrokeMap ds)"
    by (cases "om_values (getStrokeMap ds)") (simp_all add: mergeTrace_single o_def)
next
  fix t assume "t \<in> set (mergeTrace (fst (pushHeads 0 [om_values (getStrokeMap ds)] []))
                  (snd (pushHeads 0 [om_values (getStrokeMap ds)] [])))"
  then show "length (fst t) \<le> 1"
    by (cases "om_values (getStrokeMap ds)") (auto simp: mergeTrace_single)
next
  fix xs hu u ts assume "om_values (getStrokeMap ds) = xs @ [HIDE hu u ts]"
  then show "\<not> om_has (mergeStates [ds]) u"
    by (auto simp add: mergeStates_single_fold om_has_iff om_delete_def)
next
  fix xs mu u p ts s
  assume v: "om_values (getStrokeMap ds) = xs @ [MUTATE mu u p ts]"
    and g: "om_get (mergeStates [ds]) u = Some s"
  let ?m = "fold resolve xs []"
  have d: "distinct (map fst ?m)" by (simp add: fold_resolve_distinct)
  have r: "mergeStates [ds] = resolve (MUTATE mu u p ts) ?m"
    using v by (simp add: mergeStates_single_fold)
  show "pathData s = p"
  proof (cases "om_get ?m u")
    case None
    show ?thesis using r g None resolve_MUTATE_absent[OF None, of mu p ts] by simp
  next
    case (Some s0)
    have "(u, s) \<in> set (mergeStates [ds])" using g by (simp add: om_get_def map_of_SomeD)
    then show ?thesis
      unfolding r resolve_MUTATE_present[OF d Some] by auto
  qed
qed

theorem single_snapshot_is_fold_witness:
  "om_values (getStrokeMap (snapshot
      [(''u'', STROKE \<lparr>uid = ''u'', pathData = ''p'', timestamp = 5\<rparr>), (''h'', HIDE ''h'' ''u'' 3)])) =
     [STROKE \<lparr>uid = ''u'', pathData = ''p'', timestamp = 5\<rparr>] @ [HIDE ''h'' ''u'' 3] \<and>
   \<not> om_has (mergeStates [snapshot
      [(''u'', STROKE \<lparr>uid = ''u'', pathData = ''p'', timestamp = 5\<rparr>), (''h'', HIDE ''h'' ''u'' 3)]]) ''u'' \<and>
   mergeStates [snapshot
      [(''u'', STROKE \<lparr>uid = ''u'', pathData = ''p'', timestamp = 5\<rparr>), (''h'', HIDE ''h'' ''u'' 3)]] =
     foldMerge_spec [STROKE \<lparr>uid = ''u'', pathData = ''p'', timestamp = 5\<rparr>, HIDE ''h'' ''u'' 3]"
proof -
  let ?ds = "snapshot
      [(''u'', STROKE \<lparr>uid = ''u'', pathData = ''p'', timestamp = 5\<rparr>), (''h'', HIDE ''h'' ''u'' 3)]"
  have v: "om_values (getStrokeMap ?ds) =
     [STROKE \<lparr>uid = ''u'', pathData = ''p'', timestamp = 5\<rparr>] @ [HIDE ''h'' ''u'' 3]"
    by simp
  from single_snapshot_is_fold [of ?ds]
  have "mergeStates [?ds] = foldMerge_spec (om_values (getStrokeMap ?ds))"
    and "\<forall>xs hu u ts. om_values (getStrokeMap ?ds) = xs @ [HIDE hu u ts] \<longrightarrow>
       \<not> om_has (mergeStates [?ds]) u"
    by blast+
  with v show ?thesis by simp
qed

section \<open>The initial heap and the pop sequence of \<open>mergeStates\<close>\<close>

text \<open>The entries the first \<open>forEach\<close> pushes: the head of every non-empty iterator.\<close>

fun headEntries :: "nat \<Rightarrow> StrokeData list list \<Rightarrow> (StrokeData \<times> nat) list" where
  "headEntries i [] = []"
| "headEntries i ([] # its) = headEntries (Suc i) its"
| "headEntries i ((x # r) # its) = (x, i) # headEntries (Suc i) its"

lemma pushHeads_char:
  "is_heap h \<Longrightarrow>
   is_heap (fst (pushHeads i its h)) \<and>
   mset (fst (pushHeads i its h)) = mset h + mset (headEntries i its) \<and>
   snd (pushHeads i its h) = map tl its"
proof (induction i its h rule: pushHeads.induct)
  case (1 i h)
  then show ?case by simp
next
  case (2 i its h)
  then show ?case by (simp add: case_prod_beta)
next
  case (3 i x r its h)
  then show ?case by (simp add: heappush_heap case_prod_beta)
qed

lemma headEntries_set:
  "set (headEntries i its) = {(hd (its ! j), i + j) | j. j < length its \<and> its ! j \<noteq> []}"
proof (induction i its rule: headEntries.induct)
  case (1 i)
  then show ?case by simp
next
  case (2 i its)
  have "{(hd (([] # its) ! j), i + j) | j. j < length ([] # its) \<and> ([] # its) ! j \<noteq> []} =
        {(hd (its ! j), Suc i + j) | j. j < length its \<and> its ! j \<noteq> []}" (is "?A = ?B")
  proof (intro equalityI subsetI)
    fix e assume "e \<in> ?A"
    then obtain j where j: "e = (hd (([] # its) ! j), i + j)" "j < length ([] # its)"
      "([] # its) ! j \<noteq> []" by blast
    then obtain j' where "j = Suc j'" by (cases j) auto
    with j show "e \<in> ?B" by auto
  next
    fix e assume "e \<in> ?B"
    then obtain j where "e = (hd (its ! j), Suc i + j)" "j < length its" "its ! j \<noteq> []" by blast
    then show "e \<in> ?A" by (intro CollectI exI[of _ "Suc j"]) simp
  qed
  with 2 show ?case by simp
next
  case (3 i x r its)
  have "{(hd (((x # r) # its) ! j), i + j) | j. j < length ((x # r) # its) \<and> ((x # r) # its) ! j \<noteq> []} =
        insert (x, i) {(hd (its ! j), Suc i + j) | j. j < length its \<and> its ! j \<noteq> []}"
    (is "?A = insert _ ?B")
  proof (intro equalityI subsetI)
    fix e assume "e \<in> ?A"
    then obtain j where j: "e = (hd (((x # r) # its) ! j), i + j)" "j < length ((x # r) # its)"
      "((x # r) # its) ! j \<noteq> []" by blast
    then show "e \<in> insert (x, i) ?B" by (cases j) auto
  next
    fix e assume "e \<in> insert (x, i) ?B"
    then consider "e = (x, i)" | j where "e = (hd (its ! j), Suc i + j)" "j < length its" "its ! j \<noteq> []"
      by blast
    then show "e \<in> ?A"
    proof cases
      case 1
      then show ?thesis by (intro CollectI exI[of _ 0]) simp
    next
      case 2
      then show ?thesis by (intro CollectI exI[of _ "Suc j"]) simp
    qed
  qed
  with 3 show ?case by simp
qed

lemma headEntries_snd_ge: "e \<in> set (headEntries i its) \<Longrightarrow> i \<le> snd e"
  by (auto simp: headEntries_set)

lemma headEntries_distinct: "distinct (map snd (headEntries i its))"
proof (induction i its rule: headEntries.induct)
  case (3 i x r its)
  have "i \<notin> snd ` set (headEntries (Suc i) its)"
    using headEntries_snd_ge[of _ "Suc i" its] by fastforce
  with 3 show ?case by simp
qed simp_all

text \<open>The items still to be merged: those pending in the heap and those not yet read.\<close>

definition pendingItems :: "(StrokeData \<times> nat) list \<Rightarrow> StrokeData list list \<Rightarrow> StrokeData set" where
  "pendingItems h its = fst ` set h \<union> \<Union> (set ` set its)"

lemma heappop_set:
  assumes "is_heap h" "h \<noteq> []"
  shows "set h = insert (h ! 0) (set (snd (heappop cmpTs h)))"
  using mset_eq_setD[of h "h ! 0 # snd (heappop cmpTs h)"] heappop_heap(3)[OF assms] by simp

lemma heappush_set: "is_heap h \<Longrightarrow> set (heappush cmpTs h e) = insert e (set h)"
  using mset_eq_setD[of "heappush cmpTs h e" "e # h"] heappush_heap(2)[of h e] by simp

lemma set_update_tail:
  "i < length its \<Longrightarrow> its ! i = x # rest \<Longrightarrow>
   \<Union> (set ` set (its[i := rest])) \<subseteq> \<Union> (set ` set its)"
proof
  fix y assume a: "i < length its" "its ! i = x # rest" and "y \<in> \<Union> (set ` set (its[i := rest]))"
  then obtain l where l: "l \<in> set (its[i := rest])" "y \<in> set l" by auto
  then have "l = rest \<or> l \<in> set its" using set_update_subset_insert[of its i rest] by auto
  moreover have "its ! i \<in> set its" using a(1) by simp
  ultimately show "y \<in> \<Union> (set ` set its)" using l(2) a(2) by (metis UN_I list.set_intros(2))
qed

lemma mergeTrace_items:
  "is_heap h \<Longrightarrow> (\<lambda>t. fst (snd t)) ` set (mergeTrace h its) \<subseteq> pendingItems h its"
proof (induction "length h + sum_list (map length its)" arbitrary: h its rule: less_induct)
  case less
  show ?case
  proof (cases "h = []")
    case True
    then show ?thesis by simp
  next
    case False
    let ?r = "h ! 0"
    let ?h1 = "snd (heappop cmpTs h)"
    have h1: "is_heap ?h1" "length ?h1 < length h"
      using heappop_heap(2)[OF less.prems False] heappop_shorter[OF False] by auto
    have sh: "set h = insert ?r (set ?h1)" by (rule heappop_set[OF less.prems False])
    then have r: "fst ?r \<in> pendingItems h its" by (auto simp: pendingItems_def)
    show ?thesis
    proof (cases "snd ?r < length its")
      case out: False
      then show ?thesis using r
        by (simp add: mergeTrace_step[OF less.prems False] Let_def)
    next
      case True
      show ?thesis
      proof (cases "its ! snd ?r")
        case Nil
        have "(\<lambda>t. fst (snd t)) ` set (mergeTrace ?h1 its) \<subseteq> pendingItems ?h1 its"
          using h1 by (intro less.hyps) auto
        moreover have "pendingItems ?h1 its \<subseteq> pendingItems h its"
          using sh by (auto simp: pendingItems_def)
        ultimately show ?thesis using True Nil r
          by (simp add: mergeTrace_step[OF less.prems False] Let_def)
      next
        case (Cons x rest)
        let ?h2 = "heappush cmpTs ?h1 (x, snd ?r)"
        let ?its = "its[snd ?r := rest]"
        have "length ?h2 + sum_list (map length ?its) < length h + sum_list (map length its)"
          using h1(2) sum_list_update_less[OF True Cons] by simp
        moreover have "is_heap ?h2" using h1(1) by (rule heappush_heap)
        ultimately have "(\<lambda>t. fst (snd t)) ` set (mergeTrace ?h2 ?its) \<subseteq> pendingItems ?h2 ?its"
          by (intro less.hyps) auto
        moreover have "x \<in> \<Union> (set ` set its)"
          using True Cons by (metis UN_I list.set_intros(1) nth_mem)
        then have "pendingItems ?h2 ?its \<subseteq> pendingItems h its"
          using sh set_update_tail[OF True Cons] heappush_set[OF h1(1), of "(x, snd ?r)"]
          by (auto simp: pendingItems_def)
        ultimately show ?thesis using True Cons r
          by (simp add: mergeTrace_step[OF less.prems False] Let_def)
      qed
    qed
  qed
qed

text \<open>The pop sequence of \<open>mergeStates\<close>.\<close>

definition popOrder :: "'n DrawState list \<Rightarrow> StrokeData list" where
  "popOrder states =
     (let iterators = map (\<lambda>ds. om_values (getStrokeMap ds)) states;
          (heap, its) = pushHeads 0 iterators []
      in map (\<lambda>t. fst (snd t)) (mergeTrace heap its))"

definition allItems :: "'n DrawState list \<Rightarrow> StrokeData set" where
  "allItems states = (\<Union>ds \<in> set states. set (om_values (getStrokeMap ds)))"

lemma initial_heap:
  "is_heap (fst (pushHeads 0 its []))"
  "mset (fst (pushHeads 0 its [])) = mset (headEntries 0 its)"
  "snd (pushHeads 0 its []) = map tl its"
  using pushHeads_char[of "[]" 0 its] by simp_all

lemma mergeStates_popOrder: "mergeStates states = fold resolve (popOrder states) []"
  by (simp add: mergeStates_def popOrder_def Let_def mergeLoop_trace initial_heap(1) case_prod_beta)

lemma initial_pending:
  "pendingItems (fst (pushHeads 0 its [])) (snd (pushHeads 0 its [])) \<subseteq> \<Union> (set ` set its)"
proof -
  have "set (fst (pushHeads 0 its [])) = set (headEntries 0 its)"
    using initial_heap(2) by (rule mset_eq_setD)
  moreover have "fst ` set (headEntries 0 its) \<subseteq> \<Union> (set ` set its)"
    by (auto simp: headEntries_set) (metis hd_in_set nth_mem)
  moreover have "\<Union> (set ` set (map tl its)) \<subseteq> \<Union> (set ` set its)"
    by (auto dest: list.set_sel(2)[rotated]) (metis list.sel(2) list.set_sel(2))
  ultimately show ?thesis by (simp add: pendingItems_def initial_heap(3))
qed

lemma popOrder_items: "set (popOrder states) \<subseteq> allItems states"
proof -
  let ?its = "map (\<lambda>ds. om_values (getStrokeMap ds)) states"
  have "set (popOrder states) \<subseteq> pendingItems (fst (pushHeads 0 ?its [])) (snd (pushHeads 0 ?its []))"
    using mergeTrace_items[OF initial_heap(1), of ?its "snd (pushHeads 0 ?its [])"]
    by (simp add: popOrder_def Let_def case_prod_beta)
  also have "\<dots> \<subseteq> \<Union> (set ` set ?its)" by (rule initial_pending)
  also have "\<dots> = allItems states" by (auto simp: allItems_def)
  finally show ?thesis .
qed

section \<open>Supersede records in the merge\<close>

lemma om_set_keys_present: "k \<in> fst ` set m \<Longrightarrow> map fst (om_set k v m) = map fst m"
  by (induction m) auto

lemma resolve_keys:
  "set (map fst (resolve x m)) \<subseteq> set (map fst m) \<union> {uid s | s. x = STROKE s}"
proof (cases x)
  case (STROKE s)
  then show ?thesis using om_set_keys[of "uid s" s m] by auto
next
  case (HIDE u ou ts)
  then show ?thesis by (auto simp: om_delete_def)
next
  case (MUTATE u ou p ts)
  then show ?thesis
    using om_set_keys[of ou _ m]
    by (force simp: om_update_def om_get_def split: option.splits dest!: map_of_SomeD)
qed

lemma fold_resolve_keys:
  "set (map fst (fold resolve xs m)) \<subseteq> set (map fst m) \<union> {uid s | s. STROKE s \<in> set xs}"
proof (induction xs arbitrary: m)
  case Nil
  then show ?case by simp
next
  case (Cons x xs)
  have "set (map fst (fold resolve (x # xs) m)) \<subseteq>
      set (map fst (resolve x m)) \<union> {uid s | s. STROKE s \<in> set xs}"
    using Cons.IH[of "resolve x m"] by simp
  also have "\<dots> \<subseteq> set (map fst m) \<union> {uid s | s. x = STROKE s} \<union> {uid s | s. STROKE s \<in> set xs}"
    using resolve_keys[of x m] by blast
  also have "\<dots> \<subseteq> set (map fst m) \<union> {uid s | s. STROKE s \<in> set (x # xs)}"
    by auto
  finally show ?case .
qed

text \<open>
  Two snapshots for a worked example: \<open>snapA\<close> holds a stroke and a supersede record
  for it, \<open>snapB\<close> a supersede record whose origin is in no snapshot.
\<close>

definition snapA :: "int DrawState" where
  "snapA = snapshot [(''a'', STROKE \<lparr>uid = ''a'', pathData = ''p'', timestamp = 1\<rparr>),
                     (''m1'', MUTATE ''m1'' ''a'' ''q'' 4)]"

definition snapB :: "int DrawState" where
  "snapB = snapshot [(''m2'', MUTATE ''m2'' ''z'' ''r'' 2)]"

lemma popOrder_AB: "popOrder [snapA, snapB] =
   [STROKE \<lparr>uid = ''a'', pathData = ''p'', timestamp = 1\<rparr>] @ MUTATE ''m2'' ''z'' ''r'' 2 #
   [MUTATE ''m1'' ''a'' ''q'' 4]"
  by code_simp

text \<open>
  Claim C7. \<open>mergeStates\<close> is the fold of the loop body over the pop sequence. A MUTATE
  record popped while its origin is absent from the output leaves the output as it is;
  popped while the origin is present it replaces the \<open>pathData\<close> of that entry where
  it stands, keeping its key, its UID and its timestamp. The keys of the result are UIDs
  of STROKE items of the input snapshots: no MUTATE record introduces an entry.
\<close>

theorem supersede_never_adds:
  "mergeStates states = fold resolve (popOrder states) [] \<and>
   (\<forall>pre u ou p ts post. popOrder states = pre @ MUTATE u ou p ts # post \<longrightarrow>
      (om_get (fold resolve pre []) ou = None \<longrightarrow>
         fold resolve (pre @ [MUTATE u ou p ts]) [] = fold resolve pre []) \<and>
      (om_get (fold resolve pre []) ou \<noteq> None \<longrightarrow>
         fold resolve (pre @ [MUTATE u ou p ts]) [] =
           map (\<lambda>e. if fst e = ou then (fst e, (snd e)\<lparr>pathData := p\<rparr>) else e)
             (fold resolve pre []))) \<and>
   set (om_keys (mergeStates states)) \<subseteq> {uid s | s. STROKE s \<in> allItems states}"
proof (intro conjI allI impI)
  show "mergeStates states = fold resolve (popOrder states) []"
    by (rule mergeStates_popOrder)
next
  fix pre u ou p ts
  assume "om_get (fold resolve pre []) ou = None"
  then show "fold resolve (pre @ [MUTATE u ou p ts]) [] = fold resolve pre []"
    using resolve_MUTATE_absent[of "fold resolve pre []" ou u p ts] by simp
next
  fix pre u ou p ts
  assume "om_get (fold resolve pre []) ou \<noteq> None"
  then obtain s where s: "om_get (fold resolve pre []) ou = Some s" by auto
  have d: "distinct (map fst (fold resolve pre []))" by (simp add: fold_resolve_distinct)
  show "fold resolve (pre @ [MUTATE u ou p ts]) [] =
           map (\<lambda>e. if fst e = ou then (fst e, (snd e)\<lparr>pathData := p\<rparr>) else e)
             (fold resolve pre [])"
    using resolve_MUTATE_present[OF d s, of u p ts] by simp
next
  have "set (om_keys (mergeStates states)) \<subseteq> {uid s | s. STROKE s \<in> set (popOrder states)}"
    using fold_resolve_keys[of "popOrder states" "[]"]
    by (simp add: mergeStates_popOrder om_keys_def)
  also have "\<dots> \<subseteq> {uid s | s. STROKE s \<in> allItems states}"
    using popOrder_items[of states] by auto
  finally show "set (om_keys (mergeStates states)) \<subseteq> {uid s | s. STROKE s \<in> allItems states}" .
qed

theorem supersede_never_adds_witness:
  "popOrder [snapA, snapB] =
     [STROKE \<lparr>uid = ''a'', pathData = ''p'', timestamp = 1\<rparr>] @ MUTATE ''m2'' ''z'' ''r'' 2 #
     [MUTATE ''m1'' ''a'' ''q'' 4] \<and>
   om_get (fold resolve [STROKE \<lparr>uid = ''a'', pathData = ''p'', timestamp = 1\<rparr>] []) ''z'' = None \<and>
   fold resolve ([STROKE \<lparr>uid = ''a'', pathData = ''p'', timestamp = 1\<rparr>] @ [MUTATE ''m2'' ''z'' ''r'' 2]) []
     = fold resolve [STROKE \<lparr>uid = ''a'', pathData = ''p'', timestamp = 1\<rparr>] [] \<and>
   mergeStates [snapA, snapB] = [(''a'', \<lparr>uid = ''a'', pathData = ''q'', timestamp = 1\<rparr>)]"
proof -
  let ?pre = "[STROKE \<lparr>uid = ''a'', pathData = ''p'', timestamp = 1\<rparr>]"
  have n: "om_get (fold resolve ?pre []) ''z'' = None" by (simp add: om_get_def)
  from supersede_never_adds [of "[snapA, snapB]"]
  have 1: "mergeStates [snapA, snapB] = fold resolve (popOrder [snapA, snapB]) []"
    and 2: "\<forall>pre u ou p ts post. popOrder [snapA, snapB] = pre @ MUTATE u ou p ts # post \<longrightarrow>
      (om_get (fold resolve pre []) ou = None \<longrightarrow>
         fold resolve (pre @ [MUTATE u ou p ts]) [] = fold resolve pre [])"
    by blast+
  from 2 popOrder_AB n
  have "fold resolve (?pre @ [MUTATE ''m2'' ''z'' ''r'' 2]) [] = fold resolve ?pre []"
    by blast
  moreover have "mergeStates [snapA, snapB] = [(''a'', \<lparr>uid = ''a'', pathData = ''q'', timestamp = 1\<rparr>)]"
    unfolding 1 popOrder_AB by (simp add: om_update_def om_get_def)
  ultimately show ?thesis using popOrder_AB n by blast
qed

section \<open>The order of the queue\<close>

text \<open>
  The priority queue in the words of the specification: keyed by item timestamp, ties
  broken by source-snapshot index, lowest index first. The queue is the list of pending
  head entries; a pop removes the least entry under that order.
\<close>

definition specLess :: "StrokeData \<times> nat \<Rightarrow> StrokeData \<times> nat \<Rightarrow> bool" where
  "specLess a b =
     (sd_timestamp (fst a) < sd_timestamp (fst b) \<or>
      (sd_timestamp (fst a) = sd_timestamp (fst b) \<and> snd a < snd b))"

fun specMin_from :: "StrokeData \<times> nat \<Rightarrow> (StrokeData \<times> nat) list \<Rightarrow> StrokeData \<times> nat" where
  "specMin_from x [] = x"
| "specMin_from x (y # ys) = specMin_from (if specLess y x then y else x) ys"

lemma specMin_from_in: "specMin_from x ys \<in> set (x # ys)"
  by (induction ys arbitrary: x) (simp, force)

lemma remove1_specMin_length:
  "P \<noteq> [] \<Longrightarrow> length (remove1 (specMin_from (hd P) (tl P)) P) < length P"
proof -
  assume "P \<noteq> []"
  then have "specMin_from (hd P) (tl P) \<in> set P"
    using specMin_from_in[of "hd P" "tl P"] by (cases P) auto
  moreover from \<open>P \<noteq> []\<close> have "0 < length P" by simp
  ultimately show ?thesis unfolding length_remove1 by simp
qed

function specTrace :: "(StrokeData \<times> nat) list \<Rightarrow> StrokeData list list \<Rightarrow> StrokeData list" where
  "specTrace P its =
     (if P = [] then []
      else
        (let r = specMin_from (hd P) (tl P);
             P1 = remove1 r P
         in fst r #
            (if snd r < length its then
               (case its ! snd r of
                  [] \<Rightarrow> specTrace P1 its
                | x # rest \<Rightarrow> specTrace ((x, snd r) # P1) (its[snd r := rest]))
             else [])))"
  by pat_completeness auto
termination
proof (relation "measure (\<lambda>(P, its). length P + sum_list (map length its))", goal_cases)
  case 1
  show ?case by simp
next
  case (2 P its r P1)
  then show ?case using remove1_specMin_length[of P] by simp
next
  case (3 P its r P1 x rest)
  then show ?case
    using remove1_specMin_length[of P] sum_list_update_less[of "snd r" its x rest] by simp
qed

declare specTrace.simps [simp del]

definition popOrder_spec :: "'n DrawState list \<Rightarrow> StrokeData list" where
  "popOrder_spec states =
     (let iterators = map (\<lambda>ds. om_values (getStrokeMap ds)) states
      in specTrace (headEntries 0 iterators) (map tl iterators))"

text \<open>
  Two snapshots whose three items share the timestamp 1: \<open>snapX\<close> holds a stroke and a
  tombstone for \<open>y\<close>, \<open>snapY\<close> holds the stroke \<open>y\<close>.
\<close>

definition snapX :: "int DrawState" where
  "snapX = snapshot [(''x'', STROKE \<lparr>uid = ''x'', pathData = ''p'', timestamp = 1\<rparr>),
                     (''h'', HIDE ''h'' ''y'' 1)]"

definition snapY :: "int DrawState" where
  "snapY = snapshot [(''y'', STROKE \<lparr>uid = ''y'', pathData = ''q'', timestamp = 1\<rparr>)]"

text \<open>
  On \<open>snapX\<close>, \<open>snapY\<close> the heap pops the stroke \<open>y\<close> of source 1 before the tombstone of
  source 0, where the order by (timestamp, source index) pops the tombstone first; the
  merged maps differ.
\<close>

theorem tie_break_counterexample:
  "popOrder [snapX, snapY] =
     [STROKE \<lparr>uid = ''x'', pathData = ''p'', timestamp = 1\<rparr>,
      STROKE \<lparr>uid = ''y'', pathData = ''q'', timestamp = 1\<rparr>,
      HIDE ''h'' ''y'' 1] \<and>
   popOrder_spec [snapX, snapY] =
     [STROKE \<lparr>uid = ''x'', pathData = ''p'', timestamp = 1\<rparr>,
      HIDE ''h'' ''y'' 1,
      STROKE \<lparr>uid = ''y'', pathData = ''q'', timestamp = 1\<rparr>] \<and>
   mergeStates [snapX, snapY] = [(''x'', \<lparr>uid = ''x'', pathData = ''p'', timestamp = 1\<rparr>)] \<and>
   fold resolve (popOrder_spec [snapX, snapY]) [] =
     [(''x'', \<lparr>uid = ''x'', pathData = ''p'', timestamp = 1\<rparr>),
      (''y'', \<lparr>uid = ''y'', pathData = ''q'', timestamp = 1\<rparr>)]"
  by code_simp

lemma specTrace_Nil [simp]: "specTrace [] its = []"
  by (subst specTrace.simps) simp

definition specMin :: "(StrokeData \<times> nat) list \<Rightarrow> StrokeData \<times> nat" where
  "specMin P = specMin_from (hd P) (tl P)"

lemma specTrace_step:
  "P \<noteq> [] \<Longrightarrow> specTrace P its =
     fst (specMin P) #
     (if snd (specMin P) < length its then
        (case its ! snd (specMin P) of
           [] \<Rightarrow> specTrace (remove1 (specMin P) P) its
         | x # rest \<Rightarrow>
             specTrace ((x, snd (specMin P)) # remove1 (specMin P) P)
               (its[snd (specMin P) := rest]))
      else [])"
  unfolding specMin_def by (subst specTrace.simps) (simp add: Let_def)

lemma specLess_key: "specLess a b = (key a < key b \<or> (key a = key b \<and> snd a < snd b))"
  by (simp add: specLess_def key_def)

lemma specMin_from_least: "y \<in> set (x # ys) \<Longrightarrow> \<not> specLess y (specMin_from x ys)"
proof (induction ys arbitrary: x y)
  case Nil
  then show ?case by (simp add: specLess_key)
next
  case (Cons z ys)
  let ?x = "if specLess z x then z else x"
  have res: "specMin_from x (z # ys) = specMin_from ?x ys" by simp
  have IH: "\<And>w. w \<in> set (?x # ys) \<Longrightarrow> \<not> specLess w (specMin_from ?x ys)"
    using Cons.IH by blast
  have x': "\<not> specLess ?x (specMin_from ?x ys)" using IH[of ?x] by simp
  show ?case
  proof (cases "y \<in> set (?x # ys)")
    case True
    then show ?thesis unfolding res by (rule IH)
  next
    case False
    with Cons.prems have "(y = x \<and> specLess z x) \<or> (y = z \<and> \<not> specLess z x)"
      by (auto split: if_splits)
    with x' show ?thesis unfolding res by (auto simp: specLess_key split: if_splits)
  qed
qed

lemma specMin_unique:
  assumes "r \<in> set P" "\<forall>y \<in> set P. y \<noteq> r \<longrightarrow> key r < key y"
  shows "specMin P = r"
proof (rule ccontr)
  assume ne: "specMin P \<noteq> r"
  from assms(1) have P: "P = hd P # tl P" by (cases P) auto
  have "specMin P \<in> set P"
    unfolding specMin_def using specMin_from_in[of "hd P" "tl P"] P by metis
  with assms(2) ne have "key r < key (specMin P)" by blast
  then have "specLess r (specMin P)" by (simp add: specLess_key)
  moreover have "\<not> specLess r (specMin P)"
    unfolding specMin_def using specMin_from_least[of r "hd P" "tl P"] assms(1) P by metis
  ultimately show False by simp
qed

text \<open>The items of source \<open>i\<close> still to be merged, and the absence of ties between sources.\<close>

definition srcItems :: "(StrokeData \<times> nat) list \<Rightarrow> StrokeData list list \<Rightarrow> nat \<Rightarrow> StrokeData set" where
  "srcItems h its i = {x. (x, i) \<in> set h} \<union> set (its ! i)"

definition noTies :: "(StrokeData \<times> nat) list \<Rightarrow> StrokeData list list \<Rightarrow> bool" where
  "noTies h its =
     (\<forall>i<length its. \<forall>j<length its. i \<noteq> j \<longrightarrow>
        (\<forall>x \<in> srcItems h its i. \<forall>y \<in> srcItems h its j. sd_timestamp x \<noteq> sd_timestamp y))"

lemma noTies_mono:
  assumes "noTies h its" "length its' = length its"
    "\<And>i. i < length its \<Longrightarrow> srcItems h' its' i \<subseteq> srcItems h its i"
  shows "noTies h' its'"
  using assms unfolding noTies_def by (metis subsetD)

lemma root_strict_min:
  assumes "is_heap h" "h \<noteq> []" "distinct (map snd h)" "\<forall>e \<in> set h. snd e < length its"
    "noTies h its"
  shows "\<forall>y \<in> set h. y \<noteq> h ! 0 \<longrightarrow> key (h ! 0) < key y"
proof (intro ballI impI)
  fix y assume y: "y \<in> set h" "y \<noteq> h ! 0"
  have r: "h ! 0 \<in> set h" using assms(2) by simp
  obtain i where i: "i < length h" "h ! i = y" using y(1) by (auto simp: in_set_conv_nth)
  have le: "key (h ! 0) \<le> key y" using is_heap_root_min[OF assms(1) i(1)] i(2) by simp
  have "inj_on snd (set h)" using assms(3) by (simp add: distinct_map)
  with y r have idx: "snd y \<noteq> snd (h ! 0)" by (auto dest: inj_onD)
  have "fst y \<in> srcItems h its (snd y)" "fst (h ! 0) \<in> srcItems h its (snd (h ! 0))"
    using y(1) r by (simp_all add: srcItems_def)
  with assms(4,5) idx y(1) r have "sd_timestamp (fst y) \<noteq> sd_timestamp (fst (h ! 0))"
    unfolding noTies_def by blast
  with le show "key (h ! 0) < key y" by (simp add: key_def)
qed

lemma heappop_indices:
  assumes "is_heap h" "h \<noteq> []" "distinct (map snd h)"
  shows "distinct (map snd (snd (heappop cmpTs h)))"
    "snd (h ! 0) \<notin> snd ` set (snd (heappop cmpTs h))"
proof -
  let ?h1 = "snd (heappop cmpTs h)"
  have "mset (map snd h) = mset (map snd (h ! 0 # ?h1))"
    using heappop_heap(3)[OF assms(1,2)] by (metis mset.simps(2) mset_map)
  with assms(3) have "distinct (map snd (h ! 0 # ?h1))"
    using mset_eq_imp_distinct_iff by blast
  then show "distinct (map snd ?h1)" "snd (h ! 0) \<notin> snd ` set ?h1" by simp_all
qed

lemma heappush_indices:
  assumes "is_heap h" "distinct (map snd h)" "i \<notin> snd ` set h"
  shows "distinct (map snd (heappush cmpTs h (x, i)))"
proof -
  have "mset (map snd (heappush cmpTs h (x, i))) = mset (map snd ((x, i) # h))"
    using heappush_heap(2)[OF assms(1), of "(x, i)"] by (metis mset.simps(2) mset_map)
  moreover have "distinct (map snd ((x, i) # h))" using assms(2,3) by simp
  ultimately show ?thesis using mset_eq_imp_distinct_iff by blast
qed

lemma trace_eq_spec:
  assumes "is_heap h" "mset P = mset h" "distinct (map snd h)"
    "\<forall>e \<in> set h. snd e < length its" "noTies h its"
  shows "map (\<lambda>t. fst (snd t)) (mergeTrace h its) = specTrace P its"
  using assms
proof (induction "length h + sum_list (map length its)" arbitrary: h its P rule: less_induct)
  case less
  show ?case
  proof (cases "h = []")
    case True
    with less.prems(2) show ?thesis by simp
  next
    case False
    let ?r = "h ! 0"
    let ?h1 = "snd (heappop cmpTs h)"
    from less.prems(2) False have Pne: "P \<noteq> []" by auto
    have setP: "set P = set h" using less.prems(2) by (rule mset_eq_setD)
    have h1: "is_heap ?h1" "length ?h1 < length h"
      using heappop_heap(2)[OF less.prems(1) False] heappop_shorter[OF False] by auto
    have sh: "set h = insert ?r (set ?h1)" by (rule heappop_set[OF less.prems(1) False])
    have rP: "?r \<in> set P" unfolding setP using False by simp
    have smin: "\<forall>y \<in> set P. y \<noteq> ?r \<longrightarrow> key ?r < key y"
      unfolding setP by (rule root_strict_min[OF less.prems(1) False less.prems(3,4,5)])
    have min: "specMin P = ?r" by (rule specMin_unique[OF rP smin])
    have mP1: "mset (remove1 ?r P) = mset ?h1"
      using heappop_heap(3)[OF less.prems(1) False] less.prems(2) by simp
    have d1: "distinct (map snd ?h1)" "snd ?r \<notin> snd ` set ?h1"
      using heappop_indices[OF less.prems(1) False less.prems(3)] by auto
    have v1: "\<forall>e \<in> set ?h1. snd e < length its" using less.prems(4) unfolding sh by simp
    have ridx: "snd ?r < length its" using less.prems(4) False by simp
    have L: "mergeTrace h its =
        (h, ?r) # (case its ! snd ?r of [] \<Rightarrow> mergeTrace ?h1 its
                   | x # rest \<Rightarrow> mergeTrace (heappush cmpTs ?h1 (x, snd ?r)) (its[snd ?r := rest]))"
      using ridx by (subst mergeTrace_step[OF less.prems(1) False]) (simp add: Let_def)
    have R: "specTrace P its =
        fst ?r # (case its ! snd ?r of [] \<Rightarrow> specTrace (remove1 ?r P) its
                   | x # rest \<Rightarrow> specTrace ((x, snd ?r) # remove1 ?r P) (its[snd ?r := rest]))"
      using ridx specTrace_step[OF Pne, of its] unfolding min by simp
    show ?thesis
    proof (cases "its ! snd ?r")
      case Nil
      have sub: "\<And>i. i < length its \<Longrightarrow> srcItems ?h1 its i \<subseteq> srcItems h its i"
        unfolding srcItems_def sh by blast
      have nt: "noTies ?h1 its"
        by (rule noTies_mono[OF less.prems(5) refl sub])
      have m: "length ?h1 + sum_list (map length its) < length h + sum_list (map length its)"
        using h1(2) by simp
      have "map (\<lambda>t. fst (snd t)) (mergeTrace ?h1 its) = specTrace (remove1 ?r P) its"
        by (rule less.hyps[OF m h1(1) mP1 d1(1) v1 nt])
      then show ?thesis unfolding L R Nil by simp
    next
      case (Cons x rest)
      let ?h2 = "heappush cmpTs ?h1 (x, snd ?r)"
      let ?its = "its[snd ?r := rest]"
      have m: "length ?h2 + sum_list (map length ?its) < length h + sum_list (map length its)"
        using h1(2) sum_list_update_less[OF ridx Cons] by simp
      have hp: "is_heap ?h2" using h1(1) by (rule heappush_heap)
      have s2: "set ?h2 = insert (x, snd ?r) (set ?h1)" by (rule heappush_set[OF h1(1)])
      have mP2: "mset ((x, snd ?r) # remove1 ?r P) = mset ?h2"
        using heappush_heap(2)[OF h1(1), of "(x, snd ?r)"] mP1 by simp
      have d2: "distinct (map snd ?h2)" using heappush_indices[OF h1(1) d1] .
      have v2: "\<forall>e \<in> set ?h2. snd e < length ?its" using v1 ridx unfolding s2 by simp
      have sub: "\<And>i. i < length its \<Longrightarrow> srcItems ?h2 ?its i \<subseteq> srcItems h its i"
      proof -
        fix i assume i: "i < length its"
        show "srcItems ?h2 ?its i \<subseteq> srcItems h its i"
        proof (cases "i = snd ?r")
          case True
          have "set (?its ! i) = set rest" using True ridx by simp
          moreover have "set (its ! i) = insert x (set rest)" using True Cons by simp
          moreover have "{y. (y, i) \<in> set ?h2} \<subseteq> insert x {y. (y, i) \<in> set h}"
            unfolding s2 sh by blast
          ultimately show ?thesis unfolding srcItems_def by blast
        next
          case False
          then have "?its ! i = its ! i" by simp
          moreover have "{y. (y, i) \<in> set ?h2} \<subseteq> {y. (y, i) \<in> set h}"
            unfolding s2 sh using False by blast
          ultimately show ?thesis unfolding srcItems_def by auto
        qed
      qed
      have len: "length ?its = length its" by simp
      have nt: "noTies ?h2 ?its"
        by (rule noTies_mono[OF less.prems(5) len sub])
      have "map (\<lambda>t. fst (snd t)) (mergeTrace ?h2 ?its) =
          specTrace ((x, snd ?r) # remove1 ?r P) ?its"
        by (rule less.hyps[OF m hp mP2 d2 v2 nt])
      then show ?thesis unfolding L R Cons by simp
    qed
  qed
qed

text \<open>The iterations of \<open>mergeStates\<close>: the heap each iteration finds and the entry it pops.\<close>

definition mergeSteps ::
  "'n DrawState list \<Rightarrow> ((StrokeData \<times> nat) list \<times> (StrokeData \<times> nat)) list" where
  "mergeSteps states =
     (let iterators = map (\<lambda>ds. om_values (getStrokeMap ds)) states;
          (heap, its) = pushHeads 0 iterators []
      in mergeTrace heap its)"

lemma popOrder_steps: "popOrder states = map (\<lambda>t. fst (snd t)) (mergeSteps states)"
  by (simp add: popOrder_def mergeSteps_def Let_def case_prod_beta)

text \<open>No item of one snapshot has the timestamp of an item of another snapshot.\<close>

definition noCrossTies :: "'n DrawState list \<Rightarrow> bool" where
  "noCrossTies states =
     (\<forall>i<length states. \<forall>j<length states. i \<noteq> j \<longrightarrow>
        (\<forall>a \<in> set (om_values (getStrokeMap (states ! i))).
         \<forall>b \<in> set (om_values (getStrokeMap (states ! j))). sd_timestamp a \<noteq> sd_timestamp b))"

lemma mergeTrace_min:
  "is_heap h \<Longrightarrow> \<forall>t \<in> set (mergeTrace h its). \<forall>e \<in> set (fst t). key (snd t) \<le> key e"
proof (induction "length h + sum_list (map length its)" arbitrary: h its rule: less_induct)
  case less
  show ?case
  proof (cases "h = []")
    case True
    then show ?thesis by simp
  next
    case False
    let ?r = "h ! 0"
    let ?h1 = "snd (heappop cmpTs h)"
    have h1: "is_heap ?h1" "length ?h1 < length h"
      using heappop_heap(2)[OF less.prems False] heappop_shorter[OF False] by auto
    have hd: "\<forall>e \<in> set h. key ?r \<le> key e"
      using is_heap_root_min[OF less.prems] by (metis in_set_conv_nth)
    show ?thesis
    proof (cases "snd ?r < length its")
      case out: False
      then show ?thesis using hd
        by (simp add: mergeTrace_step[OF less.prems False] Let_def)
    next
      case True
      show ?thesis
      proof (cases "its ! snd ?r")
        case Nil
        have m: "length ?h1 + sum_list (map length its) < length h + sum_list (map length its)"
          using h1(2) by simp
        have "\<forall>t \<in> set (mergeTrace ?h1 its). \<forall>e \<in> set (fst t). key (snd t) \<le> key e"
          by (rule less.hyps[OF m h1(1)])
        with True Nil hd show ?thesis
          by (simp add: mergeTrace_step[OF less.prems False] Let_def)
      next
        case (Cons x rest)
        let ?h2 = "heappush cmpTs ?h1 (x, snd ?r)"
        let ?its = "its[snd ?r := rest]"
        have m: "length ?h2 + sum_list (map length ?its) < length h + sum_list (map length its)"
          using h1(2) sum_list_update_less[OF True Cons] by simp
        have hp: "is_heap ?h2" using h1(1) by (rule heappush_heap)
        have "\<forall>t \<in> set (mergeTrace ?h2 ?its). \<forall>e \<in> set (fst t). key (snd t) \<le> key e"
          by (rule less.hyps[OF m hp])
        with True Cons hd show ?thesis
          by (simp add: mergeTrace_step[OF less.prems False] Let_def)
      qed
    qed
  qed
qed

lemma initial_indices:
  "distinct (map snd (fst (pushHeads 0 its [])))"
  "\<forall>e \<in> set (fst (pushHeads 0 its [])). snd e < length its \<and> its ! snd e \<noteq> [] \<and>
      fst e = hd (its ! snd e)"
proof -
  have "mset (map snd (fst (pushHeads 0 its []))) = mset (map snd (headEntries 0 its))"
    using initial_heap(2)[of its] by (metis mset_map)
  then show "distinct (map snd (fst (pushHeads 0 its [])))"
    using headEntries_distinct[of 0 its] mset_eq_imp_distinct_iff by blast
  have "set (fst (pushHeads 0 its [])) = set (headEntries 0 its)"
    using initial_heap(2) by (rule mset_eq_setD)
  then show "\<forall>e \<in> set (fst (pushHeads 0 its [])). snd e < length its \<and> its ! snd e \<noteq> [] \<and>
      fst e = hd (its ! snd e)"
    by (auto simp: headEntries_set)
qed

lemma initial_noTies:
  assumes "\<forall>i<length its. \<forall>j<length its. i \<noteq> j \<longrightarrow>
        (\<forall>a \<in> set (its ! i). \<forall>b \<in> set (its ! j). sd_timestamp a \<noteq> sd_timestamp b)"
  shows "noTies (fst (pushHeads 0 its [])) (map tl its)"
proof -
  have "\<And>i. i < length its \<Longrightarrow> srcItems (fst (pushHeads 0 its [])) (map tl its) i \<subseteq> set (its ! i)"
  proof
    fix i x assume i: "i < length its" and "x \<in> srcItems (fst (pushHeads 0 its [])) (map tl its) i"
    then consider "(x, i) \<in> set (fst (pushHeads 0 its []))" | "x \<in> set (tl (its ! i))"
      by (auto simp: srcItems_def)
    then show "x \<in> set (its ! i)"
    proof cases
      case 1
      then show ?thesis using initial_indices(2)[of its] by force
    next
      case 2
      then show ?thesis by (metis list.sel(2) list.set_sel(2))
    qed
  qed
  then show ?thesis using assms unfolding noTies_def
    by (simp add: subset_iff)
qed

lemma popOrder_eq_spec:
  assumes "noCrossTies states"
  shows "popOrder states = popOrder_spec states"
proof -
  let ?its = "map (\<lambda>ds. om_values (getStrokeMap ds)) states"
  let ?h = "fst (pushHeads 0 ?its [])"
  have nt: "noTies ?h (map tl ?its)"
    using assms by (intro initial_noTies) (simp add: noCrossTies_def)
  have v: "\<forall>e \<in> set ?h. snd e < length (map tl ?its)"
    using initial_indices(2)[of ?its] by simp
  have "map (\<lambda>t. fst (snd t)) (mergeTrace ?h (map tl ?its)) = specTrace (headEntries 0 ?its) (map tl ?its)"
    by (rule trace_eq_spec[OF initial_heap(1) initial_heap(2)[symmetric] initial_indices(1) v nt])
  then show ?thesis
    by (simp add: popOrder_def popOrder_spec_def Let_def case_prod_beta initial_heap(3))
qed

lemma noCrossTies_AB: "noCrossTies [snapA, snapB]"
  by (simp add: noCrossTies_def snapA_def snapB_def less_Suc_eq numeral_2_eq_2 all_conj_distrib)

text \<open>
  Claim C2, as amended. The queue orders the pending head entries by timestamp alone: at
  every iteration the popped entry has the least timestamp of the heap, and the source
  index is not compared. When no item of one snapshot shares its timestamp with an item
  of another snapshot, the pop sequence is the one determined by (timestamp, source
  index), and so is the merged map.
\<close>

theorem queue_order_by_timestamp:
  "(\<forall>t \<in> set (mergeSteps states). \<forall>e \<in> set (fst t).
       sd_timestamp (fst (snd t)) \<le> sd_timestamp (fst e)) \<and>
   (noCrossTies states \<longrightarrow>
      popOrder states = popOrder_spec states \<and>
      mergeStates states = fold resolve (popOrder_spec states) [])"
proof (intro conjI impI)
  show "\<forall>t \<in> set (mergeSteps states). \<forall>e \<in> set (fst t).
       sd_timestamp (fst (snd t)) \<le> sd_timestamp (fst e)"
    using mergeTrace_min[OF initial_heap(1)]
    by (simp add: mergeSteps_def Let_def case_prod_beta key_def)
next
  assume n: "noCrossTies states"
  then show "popOrder states = popOrder_spec states" by (rule popOrder_eq_spec)
  then show "mergeStates states = fold resolve (popOrder_spec states) []"
    by (simp add: mergeStates_popOrder)
qed

theorem queue_order_by_timestamp_witness:
  "noCrossTies [snapA, snapB] \<and>
   popOrder_spec [snapA, snapB] =
     [STROKE \<lparr>uid = ''a'', pathData = ''p'', timestamp = 1\<rparr>, MUTATE ''m2'' ''z'' ''r'' 2,
      MUTATE ''m1'' ''a'' ''q'' 4] \<and>
   mergeStates [snapA, snapB] = fold resolve (popOrder_spec [snapA, snapB]) []"
  using queue_order_by_timestamp [of "[snapA, snapB]"] noCrossTies_AB popOrder_AB
  by simp

section \<open>Merging two snapshots in either order\<close>

text \<open>Renaming the source indices of heap entries.\<close>

definition reindex :: "(nat \<Rightarrow> nat) \<Rightarrow> StrokeData \<times> nat \<Rightarrow> StrokeData \<times> nat" where
  "reindex f e = (fst e, f (snd e))"

lemma key_reindex [simp]: "key (reindex f e) = key e"
  by (simp add: key_def reindex_def)

lemma trace_eq_spec_reindex:
  assumes "is_heap h" "mset P = image_mset (reindex f) (mset h)" "distinct (map snd h)"
    "\<forall>e \<in> set h. snd e < length its" "noTies h its"
    "length its' = length its" "inj_on f {..<length its}"
    "\<forall>i<length its. f i < length its \<and> its' ! f i = its ! i"
  shows "map (\<lambda>t. fst (snd t)) (mergeTrace h its) = specTrace P its'"
  using assms
proof (induction "length h + sum_list (map length its)" arbitrary: h its P its' rule: less_induct)
  case less
  show ?case
  proof (cases "h = []")
    case True
    with less.prems(2) show ?thesis by simp
  next
    case False
    let ?r = "h ! 0"
    let ?h1 = "snd (heappop cmpTs h)"
    let ?g = "reindex f"
    from less.prems(2) False have Pne: "P \<noteq> []" by auto
    have setP: "set P = ?g ` set h"
      using less.prems(2) by (metis mset_map set_map mset_eq_setD)
    have h1: "is_heap ?h1" "length ?h1 < length h"
      using heappop_heap(2)[OF less.prems(1) False] heappop_shorter[OF False] by auto
    have sh: "set h = insert ?r (set ?h1)" by (rule heappop_set[OF less.prems(1) False])
    have mh: "mset h = add_mset ?r (mset ?h1)" by (rule heappop_heap(3)[OF less.prems(1) False])
    have rP: "?g ?r \<in> set P" unfolding setP using False by simp
    have smin0: "\<forall>y \<in> set h. y \<noteq> ?r \<longrightarrow> key ?r < key y"
      by (rule root_strict_min[OF less.prems(1) False less.prems(3,4,5)])
    have smin: "\<forall>y \<in> set P. y \<noteq> ?g ?r \<longrightarrow> key (?g ?r) < key y"
      unfolding setP using smin0 by auto
    have min: "specMin P = ?g ?r" by (rule specMin_unique[OF rP smin])
    have mP1: "mset (remove1 (?g ?r) P) = image_mset ?g (mset ?h1)"
      using less.prems(2) unfolding mh by simp
    have d1: "distinct (map snd ?h1)" "snd ?r \<notin> snd ` set ?h1"
      using heappop_indices[OF less.prems(1) False less.prems(3)] by auto
    have v1: "\<forall>e \<in> set ?h1. snd e < length its" using less.prems(4) unfolding sh by simp
    have ridx: "snd ?r < length its" using less.prems(4) False by simp
    have fr: "snd (?g ?r) = f (snd ?r)" "fst (?g ?r) = fst ?r" by (simp_all add: reindex_def)
    have fidx: "f (snd ?r) < length its'" "its' ! f (snd ?r) = its ! snd ?r"
      using less.prems(6,8) ridx by auto
    have L: "mergeTrace h its =
        (h, ?r) # (case its ! snd ?r of [] \<Rightarrow> mergeTrace ?h1 its
                   | x # rest \<Rightarrow> mergeTrace (heappush cmpTs ?h1 (x, snd ?r)) (its[snd ?r := rest]))"
      using ridx by (subst mergeTrace_step[OF less.prems(1) False]) (simp add: Let_def)
    have R: "specTrace P its' =
        fst ?r # (case its ! snd ?r of [] \<Rightarrow> specTrace (remove1 (?g ?r) P) its'
                   | x # rest \<Rightarrow> specTrace ((x, f (snd ?r)) # remove1 (?g ?r) P)
                                   (its'[f (snd ?r) := rest]))"
      using fidx specTrace_step[OF Pne, of its'] unfolding min fr by simp
    show ?thesis
    proof (cases "its ! snd ?r")
      case Nil
      have sub: "\<And>i. i < length its \<Longrightarrow> srcItems ?h1 its i \<subseteq> srcItems h its i"
        unfolding srcItems_def sh by blast
      have nt: "noTies ?h1 its"
        by (rule noTies_mono[OF less.prems(5) refl sub])
      have m: "length ?h1 + sum_list (map length its) < length h + sum_list (map length its)"
        using h1(2) by simp
      have "map (\<lambda>t. fst (snd t)) (mergeTrace ?h1 its) = specTrace (remove1 (?g ?r) P) its'"
        by (rule less.hyps[OF m h1(1) mP1 d1(1) v1 nt less.prems(6,7,8)])
      then show ?thesis unfolding L R Nil by simp
    next
      case (Cons x rest)
      let ?h2 = "heappush cmpTs ?h1 (x, snd ?r)"
      let ?its = "its[snd ?r := rest]"
      let ?its' = "its'[f (snd ?r) := rest]"
      have m: "length ?h2 + sum_list (map length ?its) < length h + sum_list (map length its)"
        using h1(2) sum_list_update_less[OF ridx Cons] by simp
      have hp: "is_heap ?h2" using h1(1) by (rule heappush_heap)
      have s2: "set ?h2 = insert (x, snd ?r) (set ?h1)" by (rule heappush_set[OF h1(1)])
      have mP2: "mset ((x, f (snd ?r)) # remove1 (?g ?r) P) = image_mset ?g (mset ?h2)"
        using heappush_heap(2)[OF h1(1), of "(x, snd ?r)"] mP1 by (simp add: reindex_def)
      have d2: "distinct (map snd ?h2)" using heappush_indices[OF h1(1) d1] .
      have v2: "\<forall>e \<in> set ?h2. snd e < length ?its" using v1 ridx unfolding s2 by simp
      have sub: "\<And>i. i < length its \<Longrightarrow> srcItems ?h2 ?its i \<subseteq> srcItems h its i"
      proof -
        fix i assume i: "i < length its"
        show "srcItems ?h2 ?its i \<subseteq> srcItems h its i"
        proof (cases "i = snd ?r")
          case True
          have "set (?its ! i) = set rest" using True ridx by simp
          moreover have "set (its ! i) = insert x (set rest)" using True Cons by simp
          moreover have "{y. (y, i) \<in> set ?h2} \<subseteq> insert x {y. (y, i) \<in> set h}"
            unfolding s2 sh by blast
          ultimately show ?thesis unfolding srcItems_def by blast
        next
          case False
          then have "?its ! i = its ! i" by simp
          moreover have "{y. (y, i) \<in> set ?h2} \<subseteq> {y. (y, i) \<in> set h}"
            unfolding s2 sh using False by blast
          ultimately show ?thesis unfolding srcItems_def by auto
        qed
      qed
      have len: "length ?its = length its" by simp
      have nt: "noTies ?h2 ?its"
        by (rule noTies_mono[OF less.prems(5) len sub])
      have l6: "length ?its' = length ?its" using less.prems(6) by simp
      have l7: "inj_on f {..<length ?its}" using less.prems(7) by simp
      have l8: "\<forall>i<length ?its. f i < length ?its \<and> ?its' ! f i = ?its ! i"
      proof (intro allI impI)
        fix i assume i: "i < length ?its"
        then have il: "i < length its" by simp
        show "f i < length ?its \<and> ?its' ! f i = ?its ! i"
        proof (cases "i = snd ?r")
          case True
          then show ?thesis using less.prems(6,8) il by simp
        next
          case False
          then have "f i \<noteq> f (snd ?r)"
            using less.prems(7) il ridx by (auto dest: inj_onD)
          then show ?thesis using less.prems(8) il False by simp
        qed
      qed
      have "map (\<lambda>t. fst (snd t)) (mergeTrace ?h2 ?its) =
          specTrace ((x, f (snd ?r)) # remove1 (?g ?r) P) ?its'"
        by (rule less.hyps[OF m hp mP2 d2 v2 nt l6 l7 l8])
      then show ?thesis unfolding L R Cons by simp
    qed
  qed
qed

lemma popOrder_swap:
  assumes "\<forall>a \<in> set (om_values (getStrokeMap A)). \<forall>b \<in> set (om_values (getStrokeMap B)).
             sd_timestamp a \<noteq> sd_timestamp b"
  shows "popOrder [B, A] = popOrder_spec [A, B]"
proof -
  let ?a = "om_values (getStrokeMap A)"
  let ?b = "om_values (getStrokeMap B)"
  let ?its = "[?b, ?a]"
  let ?h = "fst (pushHeads 0 ?its [])"
  let ?f = "\<lambda>i::nat. 1 - i"
  have nt: "noTies ?h (map tl ?its)"
    using assms by (intro initial_noTies) (auto simp: less_Suc_eq, metis)
  have v: "\<forall>e \<in> set ?h. snd e < length (map tl ?its)"
    using initial_indices(2)[of ?its] by simp
  have m: "mset (headEntries 0 [?a, ?b]) = image_mset (reindex ?f) (mset ?h)"
    unfolding initial_heap(2) by (cases ?a; cases ?b) (simp_all add: reindex_def)
  have l6: "length (map tl [?a, ?b]) = length (map tl ?its)" by simp
  have l7: "inj_on ?f {..<length (map tl ?its)}" by (auto simp: inj_on_def)
  have l8: "\<forall>i<length (map tl ?its). ?f i < length (map tl ?its) \<and>
        map tl [?a, ?b] ! ?f i = map tl ?its ! i"
    by (auto simp: less_Suc_eq)
  have "map (\<lambda>t. fst (snd t)) (mergeTrace ?h (map tl ?its)) =
      specTrace (headEntries 0 [?a, ?b]) (map tl [?a, ?b])"
    by (rule trace_eq_spec_reindex[OF initial_heap(1) m initial_indices(1) v nt l6 l7 l8])
  then show ?thesis
    by (simp add: popOrder_def popOrder_spec_def Let_def case_prod_beta initial_heap(3))
qed

lemma noCrossTies_pair:
  "noCrossTies [A, B] =
     (\<forall>a \<in> set (om_values (getStrokeMap A)). \<forall>b \<in> set (om_values (getStrokeMap B)).
             sd_timestamp a \<noteq> sd_timestamp b)"
  by (auto simp: noCrossTies_def less_Suc_eq, metis)

section \<open>Snapshots stored in timestamp order\<close>

text \<open>
  The state of the loop when every snapshot is stored in timestamp order: entries carry
  valid source indices, every iterator that is not exhausted has its head pending in the
  heap, the iterators are sorted and no pending entry is later than the items its
  iterator still holds.
\<close>

definition mergeInv :: "(StrokeData \<times> nat) list \<Rightarrow> StrokeData list list \<Rightarrow> bool" where
  "mergeInv h its =
     (is_heap h \<and>
      (\<forall>e \<in> set h. snd e < length its) \<and>
      (\<forall>i<length its. its ! i \<noteq> [] \<longrightarrow> i \<in> snd ` set h))"

definition sortedInv :: "(StrokeData \<times> nat) list \<Rightarrow> StrokeData list list \<Rightarrow> bool" where
  "sortedInv h its =
     ((\<forall>i<length its. sorted (map sd_timestamp (its ! i))) \<and>
      (\<forall>e \<in> set h. \<forall>y \<in> set (its ! snd e). key e \<le> sd_timestamp y))"

lemma mergeInv_pop_Nil:
  assumes "mergeInv h its" "h \<noteq> []" "its ! snd (h ! 0) = []"
  shows "mergeInv (snd (heappop cmpTs h)) its"
proof -
  let ?r = "h ! 0"
  let ?h1 = "snd (heappop cmpTs h)"
  have hp: "is_heap h" using assms(1) by (simp add: mergeInv_def)
  have sh: "set h = insert ?r (set ?h1)" by (rule heappop_set[OF hp assms(2)])
  have "\<forall>i<length its. its ! i \<noteq> [] \<longrightarrow> i \<in> snd ` set ?h1"
  proof (intro allI impI)
    fix i assume i: "i < length its" "its ! i \<noteq> []"
    then obtain e where e: "e \<in> set h" "snd e = i" using assms(1) by (auto simp: mergeInv_def)
    with i assms(3) have "e \<noteq> ?r" by auto
    with e sh show "i \<in> snd ` set ?h1" by auto
  qed
  moreover have "\<forall>e \<in> set ?h1. snd e < length its"
    using assms(1) sh by (simp add: mergeInv_def)
  ultimately show ?thesis
    using heappop_heap(2)[OF hp assms(2)] by (simp add: mergeInv_def)
qed

lemma mergeInv_pop_Cons:
  assumes "mergeInv h its" "h \<noteq> []" "its ! snd (h ! 0) = x # rest"
  shows "mergeInv (heappush cmpTs (snd (heappop cmpTs h)) (x, snd (h ! 0))) (its[snd (h ! 0) := rest])"
proof -
  let ?r = "h ! 0"
  let ?h1 = "snd (heappop cmpTs h)"
  let ?h2 = "heappush cmpTs ?h1 (x, snd ?r)"
  have hp: "is_heap h" using assms(1) by (simp add: mergeInv_def)
  have h1: "is_heap ?h1" by (rule heappop_heap(2)[OF hp assms(2)])
  have sh: "set h = insert ?r (set ?h1)" by (rule heappop_set[OF hp assms(2)])
  have s2: "set ?h2 = insert (x, snd ?r) (set ?h1)" by (rule heappush_set[OF h1])
  have ridx: "snd ?r < length its" using assms(1,2) by (simp add: mergeInv_def)
  have "\<forall>i<length (its[snd ?r := rest]). its[snd ?r := rest] ! i \<noteq> [] \<longrightarrow> i \<in> snd ` set ?h2"
  proof (intro allI impI)
    fix i assume i: "i < length (its[snd ?r := rest])" "its[snd ?r := rest] ! i \<noteq> []"
    show "i \<in> snd ` set ?h2"
    proof (cases "i = snd ?r")
      case True
      then show ?thesis unfolding s2 by simp
    next
      case False
      with i have "i < length its" "its ! i \<noteq> []" by simp_all
      then obtain e where e: "e \<in> set h" "snd e = i" using assms(1) by (auto simp: mergeInv_def)
      with False have "e \<noteq> ?r" by auto
      with e sh show ?thesis unfolding s2 by auto
    qed
  qed
  moreover have "\<forall>e \<in> set ?h2. snd e < length (its[snd ?r := rest])"
    using assms(1) sh ridx unfolding s2 by (simp add: mergeInv_def)
  ultimately show ?thesis
    using heappush_heap(1)[OF h1] by (simp add: mergeInv_def)
qed

lemma sortedInv_pop_Nil:
  assumes "is_heap h" "h \<noteq> []" "sortedInv h its"
  shows "sortedInv (snd (heappop cmpTs h)) its"
  using assms(3) heappop_set[OF assms(1,2)] by (simp add: sortedInv_def)

lemma sortedInv_pop_Cons:
  assumes "is_heap h" "h \<noteq> []" "sortedInv h its" "snd (h ! 0) < length its"
    "its ! snd (h ! 0) = x # rest"
  shows "sortedInv (heappush cmpTs (snd (heappop cmpTs h)) (x, snd (h ! 0))) (its[snd (h ! 0) := rest])"
proof -
  let ?r = "h ! 0"
  let ?h1 = "snd (heappop cmpTs h)"
  let ?h2 = "heappush cmpTs ?h1 (x, snd ?r)"
  let ?its = "its[snd ?r := rest]"
  have h1: "is_heap ?h1" by (rule heappop_heap(2)[OF assms(1,2)])
  have sh: "set h = insert ?r (set ?h1)" by (rule heappop_set[OF assms(1,2)])
  have s2: "set ?h2 = insert (x, snd ?r) (set ?h1)" by (rule heappush_set[OF h1])
  have srt: "sorted (map sd_timestamp (x # rest))"
    using assms(3,4,5) by (auto simp: sortedInv_def)
  have a: "\<forall>i<length ?its. sorted (map sd_timestamp (?its ! i))"
  proof (intro allI impI)
    fix i assume "i < length ?its"
    then show "sorted (map sd_timestamp (?its ! i))"
      using assms(3) srt by (cases "i = snd ?r") (auto simp: sortedInv_def)
  qed
  have b: "\<forall>e \<in> set ?h2. \<forall>y \<in> set (?its ! snd e). key e \<le> sd_timestamp y"
  proof (intro ballI)
    fix e y assume e: "e \<in> set ?h2" and y: "y \<in> set (?its ! snd e)"
    show "key e \<le> sd_timestamp y"
    proof (cases "e = (x, snd ?r)")
      case True
      with y assms(4) have "y \<in> set rest" by simp
      with srt True show ?thesis by (simp add: key_def)
    next
      case False
      with e have eh: "e \<in> set h" unfolding s2 sh by simp
      have "y \<in> set (its ! snd e)"
      proof (cases "snd e = snd ?r")
        case True
        with y assms(4,5) show ?thesis by simp
      next
        case False
        with y show ?thesis by simp
      qed
      with eh assms(3) show ?thesis by (simp add: sortedInv_def)
    qed
  qed
  from a b show ?thesis by (simp add: sortedInv_def)
qed

lemma mset_concat_update:
  "i < length its \<Longrightarrow> its ! i = x # rest \<Longrightarrow>
   mset (concat its) = add_mset x (mset (concat (its[i := rest])))"
proof (induction its arbitrary: i)
  case Nil
  then show ?case by simp
next
  case (Cons l its)
  then show ?case by (cases i) auto
qed

lemma concat_all_Nil: "\<forall>i<length its. its ! i = [] \<Longrightarrow> concat its = []"
  by (induction its) fastforce+

lemma mergeTrace_mset:
  "mergeInv h its \<Longrightarrow>
   mset (map (\<lambda>t. fst (snd t)) (mergeTrace h its)) = image_mset fst (mset h) + mset (concat its)"
proof (induction "length h + sum_list (map length its)" arbitrary: h its rule: less_induct)
  case less
  have hp: "is_heap h" using less.prems by (simp add: mergeInv_def)
  show ?case
  proof (cases "h = []")
    case True
    with less.prems have "\<forall>i<length its. its ! i = []" by (auto simp: mergeInv_def)
    then have "concat its = []" by (rule concat_all_Nil)
    with True show ?thesis by simp
  next
    case False
    let ?r = "h ! 0"
    let ?h1 = "snd (heappop cmpTs h)"
    have h1: "is_heap ?h1" "length ?h1 < length h"
      using heappop_heap(2)[OF hp False] heappop_shorter[OF False] by auto
    have mh: "mset h = add_mset ?r (mset ?h1)" by (rule heappop_heap(3)[OF hp False])
    have ridx: "snd ?r < length its" using less.prems False by (simp add: mergeInv_def)
    have L: "mergeTrace h its =
        (h, ?r) # (case its ! snd ?r of [] \<Rightarrow> mergeTrace ?h1 its
                   | x # rest \<Rightarrow> mergeTrace (heappush cmpTs ?h1 (x, snd ?r)) (its[snd ?r := rest]))"
      using ridx by (subst mergeTrace_step[OF hp False]) (simp add: Let_def)
    show ?thesis
    proof (cases "its ! snd ?r")
      case Nil
      have m: "length ?h1 + sum_list (map length its) < length h + sum_list (map length its)"
        using h1(2) by simp
      have "mset (map (\<lambda>t. fst (snd t)) (mergeTrace ?h1 its)) =
          image_mset fst (mset ?h1) + mset (concat its)"
        by (rule less.hyps[OF m mergeInv_pop_Nil[OF less.prems False Nil]])
      then show ?thesis unfolding L Nil mh by simp
    next
      case (Cons x rest)
      let ?h2 = "heappush cmpTs ?h1 (x, snd ?r)"
      let ?its = "its[snd ?r := rest]"
      have m: "length ?h2 + sum_list (map length ?its) < length h + sum_list (map length its)"
        using h1(2) sum_list_update_less[OF ridx Cons] by simp
      have "mset (map (\<lambda>t. fst (snd t)) (mergeTrace ?h2 ?its)) =
          image_mset fst (mset ?h2) + mset (concat ?its)"
        by (rule less.hyps[OF m mergeInv_pop_Cons[OF less.prems False Cons]])
      moreover have "mset ?h2 = add_mset (x, snd ?r) (mset ?h1)"
        by (rule heappush_heap(2)[OF h1(1)])
      moreover have "mset (concat its) = add_mset x (mset (concat ?its))"
        by (rule mset_concat_update[OF ridx Cons])
      ultimately show ?thesis unfolding L Cons mh by simp
    qed
  qed
qed

lemma pending_ge_root:
  assumes "mergeInv h its" "sortedInv h its" "h \<noteq> []" "y \<in> pendingItems h its"
  shows "key (h ! 0) \<le> sd_timestamp y"
proof -
  have hp: "is_heap h" using assms(1) by (simp add: mergeInv_def)
  have root: "\<And>e. e \<in> set h \<Longrightarrow> key (h ! 0) \<le> key e"
    using is_heap_root_min[OF hp] by (metis in_set_conv_nth)
  from assms(4) consider e where "e \<in> set h" "y = fst e" | l where "l \<in> set its" "y \<in> set l"
    by (auto simp: pendingItems_def)
  then show ?thesis
  proof cases
    case 1
    then show ?thesis using root[of e] by (simp add: key_def)
  next
    case 2
    then obtain i where i: "i < length its" "its ! i = l" by (auto simp: in_set_conv_nth)
    with 2 have "its ! i \<noteq> []" by auto
    with i assms(1) obtain e where e: "e \<in> set h" "snd e = i" by (auto simp: mergeInv_def)
    with assms(2) i 2 have "key e \<le> sd_timestamp y" by (auto simp: sortedInv_def)
    with root[OF e(1)] show ?thesis by simp
  qed
qed

lemma mergeTrace_sorted:
  "mergeInv h its \<Longrightarrow> sortedInv h its \<Longrightarrow>
   sorted (map (\<lambda>t. sd_timestamp (fst (snd t))) (mergeTrace h its))"
proof (induction "length h + sum_list (map length its)" arbitrary: h its rule: less_induct)
  case less
  have hp: "is_heap h" using less.prems by (simp add: mergeInv_def)
  show ?case
  proof (cases "h = []")
    case True
    then show ?thesis by simp
  next
    case False
    let ?r = "h ! 0"
    let ?h1 = "snd (heappop cmpTs h)"
    have h1: "is_heap ?h1" "length ?h1 < length h"
      using heappop_heap(2)[OF hp False] heappop_shorter[OF False] by auto
    have sh: "set h = insert ?r (set ?h1)" by (rule heappop_set[OF hp False])
    have ridx: "snd ?r < length its" using less.prems False by (simp add: mergeInv_def)
    have L: "mergeTrace h its =
        (h, ?r) # (case its ! snd ?r of [] \<Rightarrow> mergeTrace ?h1 its
                   | x # rest \<Rightarrow> mergeTrace (heappush cmpTs ?h1 (x, snd ?r)) (its[snd ?r := rest]))"
      using ridx by (subst mergeTrace_step[OF hp False]) (simp add: Let_def)
    have ge: "\<And>y. y \<in> pendingItems h its \<Longrightarrow> sd_timestamp (fst ?r) \<le> sd_timestamp y"
      using pending_ge_root[OF less.prems False] by (simp add: key_def)
    show ?thesis
    proof (cases "its ! snd ?r")
      case Nil
      have m: "length ?h1 + sum_list (map length its) < length h + sum_list (map length its)"
        using h1(2) by simp
      have srt: "sorted (map (\<lambda>t. sd_timestamp (fst (snd t))) (mergeTrace ?h1 its))"
        by (rule less.hyps[OF m mergeInv_pop_Nil[OF less.prems(1) False Nil]
              sortedInv_pop_Nil[OF hp False less.prems(2)]])
      have "(\<lambda>t. fst (snd t)) ` set (mergeTrace ?h1 its) \<subseteq> pendingItems ?h1 its"
        by (rule mergeTrace_items[OF h1(1)])
      also have "\<dots> \<subseteq> pendingItems h its" unfolding pendingItems_def sh by blast
      finally have "\<forall>t \<in> set (mergeTrace ?h1 its). sd_timestamp (fst ?r) \<le> sd_timestamp (fst (snd t))"
        using ge by blast
      with srt show ?thesis unfolding L Nil by simp
    next
      case (Cons x rest)
      let ?h2 = "heappush cmpTs ?h1 (x, snd ?r)"
      let ?its = "its[snd ?r := rest]"
      have m: "length ?h2 + sum_list (map length ?its) < length h + sum_list (map length its)"
        using h1(2) sum_list_update_less[OF ridx Cons] by simp
      have srt: "sorted (map (\<lambda>t. sd_timestamp (fst (snd t))) (mergeTrace ?h2 ?its))"
        by (rule less.hyps[OF m mergeInv_pop_Cons[OF less.prems(1) False Cons]
              sortedInv_pop_Cons[OF hp False less.prems(2) ridx Cons]])
      have hp2: "is_heap ?h2" using h1(1) by (rule heappush_heap)
      have "(\<lambda>t. fst (snd t)) ` set (mergeTrace ?h2 ?its) \<subseteq> pendingItems ?h2 ?its"
        by (rule mergeTrace_items[OF hp2])
      also have "\<dots> \<subseteq> pendingItems h its"
      proof -
        have "x \<in> \<Union> (set ` set its)"
          using ridx Cons by (metis UN_I list.set_intros(1) nth_mem)
        then show ?thesis
          using sh set_update_tail[OF ridx Cons] heappush_set[OF h1(1), of "(x, snd ?r)"]
          by (auto simp: pendingItems_def)
      qed
      finally have "\<forall>t \<in> set (mergeTrace ?h2 ?its). sd_timestamp (fst ?r) \<le> sd_timestamp (fst (snd t))"
        using ge by blast
      with srt show ?thesis unfolding L Cons by simp
    qed
  qed
qed

lemma headEntries_mset:
  "image_mset fst (mset (headEntries i its)) + mset (concat (map tl its)) = mset (concat its)"
  by (induction i its rule: headEntries.induct) simp_all

lemma initial_mergeInv: "mergeInv (fst (pushHeads 0 its [])) (map tl its)"
proof -
  let ?h = "fst (pushHeads 0 its [])"
  have sh: "set ?h = set (headEntries 0 its)"
    using initial_heap(2) by (rule mset_eq_setD)
  have "\<forall>i<length (map tl its). map tl its ! i \<noteq> [] \<longrightarrow> i \<in> snd ` set ?h"
  proof (intro allI impI)
    fix i assume i: "i < length (map tl its)" "map tl its ! i \<noteq> []"
    then have "its ! i \<noteq> []" by auto
    with i have "(hd (its ! i), 0 + i) \<in> set (headEntries 0 its)"
      unfolding headEntries_set by auto
    then show "i \<in> snd ` set ?h" unfolding sh by force
  qed
  then show ?thesis
    using initial_heap(1)[of its] initial_indices(2)[of its] by (simp add: mergeInv_def)
qed

lemma initial_sortedInv:
  assumes "\<forall>l \<in> set its. sorted (map sd_timestamp l)"
  shows "sortedInv (fst (pushHeads 0 its [])) (map tl its)"
proof -
  let ?h = "fst (pushHeads 0 its [])"
  have a: "\<forall>i<length (map tl its). sorted (map sd_timestamp (map tl its ! i))"
  proof (intro allI impI)
    fix i assume "i < length (map tl its)"
    then have "sorted (map sd_timestamp (its ! i))" using assms by simp
    then show "sorted (map sd_timestamp (map tl its ! i))"
      using \<open>i < length (map tl its)\<close> by (cases "its ! i") simp_all
  qed
  have b: "\<forall>e \<in> set ?h. \<forall>y \<in> set (map tl its ! snd e). key e \<le> sd_timestamp y"
  proof (intro ballI)
    fix e y assume e: "e \<in> set ?h" and y: "y \<in> set (map tl its ! snd e)"
    from e initial_indices(2)[of its]
    have i: "snd e < length its" "its ! snd e \<noteq> []" "fst e = hd (its ! snd e)" by auto
    then obtain x rest where l: "its ! snd e = x # rest" by (cases "its ! snd e") auto
    have "sorted (map sd_timestamp (x # rest))" using assms i(1) l by (metis nth_mem)
    moreover have "y \<in> set rest" using y i(1) l by simp
    ultimately show "key e \<le> sd_timestamp y" using i(3) l by (simp add: key_def)
  qed
  from a b show ?thesis by (simp add: sortedInv_def)
qed

lemma popOrder_mset:
  "mset (popOrder states) = mset (concat (map (\<lambda>ds. om_values (getStrokeMap ds)) states))"
proof -
  let ?its = "map (\<lambda>ds. om_values (getStrokeMap ds)) states"
  have "mset (popOrder states) =
      image_mset fst (mset (fst (pushHeads 0 ?its []))) + mset (concat (map tl ?its))"
    using mergeTrace_mset[OF initial_mergeInv[of ?its]]
    by (simp add: popOrder_def Let_def case_prod_beta initial_heap(3))
  also have "\<dots> = image_mset fst (mset (headEntries 0 ?its)) + mset (concat (map tl ?its))"
    unfolding initial_heap(2) ..
  also have "\<dots> = mset (concat ?its)" by (rule headEntries_mset)
  finally show ?thesis .
qed

lemma popOrder_set: "set (popOrder states) = allItems states"
proof -
  have "set (popOrder states) = set (concat (map (\<lambda>ds. om_values (getStrokeMap ds)) states))"
    using popOrder_mset by (rule mset_eq_setD)
  then show ?thesis by (auto simp: allItems_def)
qed

text \<open>A snapshot whose items are stored in non-decreasing timestamp order.\<close>

definition tsSorted :: "'n DrawState \<Rightarrow> bool" where
  "tsSorted ds = sorted (map sd_timestamp (om_values (getStrokeMap ds)))"

lemma popOrder_sorted:
  assumes "list_all tsSorted states"
  shows "sorted (map sd_timestamp (popOrder states))"
proof -
  let ?its = "map (\<lambda>ds. om_values (getStrokeMap ds)) states"
  have "\<forall>l \<in> set ?its. sorted (map sd_timestamp l)"
    using assms by (auto simp: list_all_iff tsSorted_def)
  then have "sortedInv (fst (pushHeads 0 ?its [])) (map tl ?its)" by (rule initial_sortedInv)
  from mergeTrace_sorted[OF initial_mergeInv this]
  show ?thesis by (simp add: popOrder_def Let_def case_prod_beta initial_heap(3) o_def)
qed

lemma resolve_keeps_key:
  assumes "u \<in> fst ` set m" "\<And>hu th. x \<noteq> HIDE hu u th"
  shows "u \<in> fst ` set (resolve x m)"
proof (cases x)
  case (STROKE s)
  then show ?thesis using assms(1) om_set_keys[of "uid s" s m] by auto
next
  case (HIDE hu ou th)
  with assms(2) have "ou \<noteq> u" by auto
  with assms(1) HIDE show ?thesis by (auto simp: om_delete_def)
next
  case (MUTATE mu ou p ts)
  then show ?thesis
    using assms(1) om_set_keys[of ou _ m] by (auto simp: om_update_def split: option.split)
qed

lemma fold_resolve_keeps_key:
  "u \<in> fst ` set m \<Longrightarrow> (\<And>hu th. HIDE hu u th \<notin> set xs) \<Longrightarrow> u \<in> fst ` set (fold resolve xs m)"
proof (induction xs arbitrary: m)
  case Nil
  then show ?case by simp
next
  case (Cons x xs)
  have "u \<in> fst ` set (resolve x m)"
    using Cons.prems by (intro resolve_keeps_key) auto
  then show ?case using Cons.IH[of "resolve x m"] Cons.prems(2) by simp
qed

lemma fold_resolve_absent:
  assumes "u \<notin> fst ` set m" "\<And>s. STROKE s \<in> set xs \<Longrightarrow> uid s \<noteq> u"
  shows "u \<notin> fst ` set (fold resolve xs m)"
proof
  assume "u \<in> fst ` set (fold resolve xs m)"
  with fold_resolve_keys[of xs m] have "u \<in> set (map fst m) \<union> {uid s | s. STROKE s \<in> set xs}"
    by auto
  with assms show False by auto
qed

lemma sorted_after:
  "sorted (map f (pre @ x # post)) \<Longrightarrow> y \<in> set post \<Longrightarrow> f x \<le> f y"
  by (auto simp: sorted_append)

section \<open>Tombstones in the merge\<close>

text \<open>
  \<open>snapU\<close> holds the stroke \<open>u\<close> with timestamp 5; \<open>snapH3\<close> and \<open>snapH10\<close> hold a tombstone
  for \<open>u\<close> with timestamp 3 and 10.
\<close>

definition snapU :: "int DrawState" where
  "snapU = snapshot [(''u'', STROKE \<lparr>uid = ''u'', pathData = ''p'', timestamp = 5\<rparr>)]"

definition snapH3 :: "int DrawState" where
  "snapH3 = snapshot [(''h'', HIDE ''h'' ''u'' 3)]"

definition snapH10 :: "int DrawState" where
  "snapH10 = snapshot [(''h'', HIDE ''h'' ''u'' 10)]"

text \<open>
  With the tombstone at 3 and the stroke at 5 the tombstone is popped first and deletes
  nothing; the stroke is inserted after it and stays, in both argument orders.
\<close>

theorem tombstone_earlier_counterexample:
  "mergeStates [snapU, snapH3] = [(''u'', \<lparr>uid = ''u'', pathData = ''p'', timestamp = 5\<rparr>)] \<and>
   mergeStates [snapH3, snapU] = [(''u'', \<lparr>uid = ''u'', pathData = ''p'', timestamp = 5\<rparr>)] \<and>
   om_has (mergeStates [snapU, snapH3]) ''u''"
proof -
  have 1: "mergeStates [snapU, snapH3] = [(''u'', \<lparr>uid = ''u'', pathData = ''p'', timestamp = 5\<rparr>)]"
    by code_simp
  have 2: "mergeStates [snapH3, snapU] = [(''u'', \<lparr>uid = ''u'', pathData = ''p'', timestamp = 5\<rparr>)]"
    by code_simp
  show ?thesis unfolding 1 2 by (simp add: om_has_def om_get_def)
qed

text \<open>
  Claim C1, as amended. For snapshots whose items are stored in timestamp order: a
  tombstone for \<open>u\<close> whose timestamp is later than that of every stroke item with UID
  \<open>u\<close> leaves the merged map without an entry for \<open>u\<close>; a stroke item whose timestamp
  is later than that of every tombstone for its UID has an entry in the merged map.
\<close>

theorem tombstone_by_timestamp:
  assumes "list_all tsSorted states"
  shows "(HIDE hu u th \<in> allItems states \<and>
          (\<forall>s. STROKE s \<in> allItems states \<and> uid s = u \<longrightarrow> timestamp s < th)
            \<longrightarrow> \<not> om_has (mergeStates states) u) \<and>
         (STROKE s \<in> allItems states \<and>
          (\<forall>hu' th'. HIDE hu' (uid s) th' \<in> allItems states \<longrightarrow> th' < timestamp s)
            \<longrightarrow> om_has (mergeStates states) (uid s))"
proof (intro conjI impI)
  let ?L = "popOrder states"
  have srt: "sorted (map sd_timestamp ?L)" using assms by (rule popOrder_sorted)
  {
    assume a: "HIDE hu u th \<in> allItems states \<and>
          (\<forall>s. STROKE s \<in> allItems states \<and> uid s = u \<longrightarrow> timestamp s < th)"
    then have "HIDE hu u th \<in> set ?L" by (simp add: popOrder_set)
    then obtain pre post where L: "?L = pre @ HIDE hu u th # post" by (meson split_list)
    have post: "\<And>s. STROKE s \<in> set post \<Longrightarrow> uid s \<noteq> u"
    proof
      fix s assume s: "STROKE s \<in> set post" "uid s = u"
      then have "STROKE s \<in> allItems states" using L popOrder_set[of states] by auto
      with a s(2) have "timestamp s < th" by blast
      moreover have "sd_timestamp (HIDE hu u th) \<le> sd_timestamp (STROKE s)"
        using srt s(1) unfolding L by (rule sorted_after)
      ultimately show False by simp
    qed
    have "u \<notin> fst ` set (om_delete u (fold resolve pre []))" by (auto simp: om_delete_def)
    then have "u \<notin> fst ` set (fold resolve post (om_delete u (fold resolve pre [])))"
      using post by (rule fold_resolve_absent)
    then show "\<not> om_has (mergeStates states) u"
      by (simp add: mergeStates_popOrder L om_has_iff)
  }
  {
    assume a: "STROKE s \<in> allItems states \<and>
          (\<forall>hu' th'. HIDE hu' (uid s) th' \<in> allItems states \<longrightarrow> th' < timestamp s)"
    then have "STROKE s \<in> set ?L" by (simp add: popOrder_set)
    then obtain pre post where L: "?L = pre @ STROKE s # post" by (meson split_list)
    have post: "\<And>hu' th'. HIDE hu' (uid s) th' \<notin> set post"
    proof
      fix hu' th' assume h: "HIDE hu' (uid s) th' \<in> set post"
      then have "HIDE hu' (uid s) th' \<in> allItems states" using L popOrder_set[of states] by auto
      with a have "th' < timestamp s" by blast
      moreover have "sd_timestamp (STROKE s) \<le> sd_timestamp (HIDE hu' (uid s) th')"
        using srt h unfolding L by (rule sorted_after)
      ultimately show False by simp
    qed
    have "uid s \<in> fst ` set (om_set (uid s) s (fold resolve pre []))"
      using om_set_keys[of "uid s" s "fold resolve pre []"] by simp
    then have "uid s \<in> fst ` set (fold resolve post (om_set (uid s) s (fold resolve pre [])))"
      using post by (rule fold_resolve_keeps_key)
    then show "om_has (mergeStates states) (uid s)"
      by (simp add: mergeStates_popOrder L om_has_iff)
  }
qed

theorem tombstone_by_timestamp_witness:
  "list_all tsSorted [snapU, snapH10] \<and> HIDE ''h'' ''u'' 10 \<in> allItems [snapU, snapH10] \<and>
   \<not> om_has (mergeStates [snapU, snapH10]) ''u'' \<and>
   list_all tsSorted [snapU, snapH3] \<and>
   STROKE \<lparr>uid = ''u'', pathData = ''p'', timestamp = 5\<rparr> \<in> allItems [snapU, snapH3] \<and>
   om_has (mergeStates [snapU, snapH3]) ''u''"
proof -
  have s1: "list_all tsSorted [snapU, snapH10]" and s2: "list_all tsSorted [snapU, snapH3]"
    by (simp_all add: tsSorted_def snapU_def snapH10_def snapH3_def)
  have i1: "allItems [snapU, snapH10] =
      {STROKE \<lparr>uid = ''u'', pathData = ''p'', timestamp = 5\<rparr>, HIDE ''h'' ''u'' 10}"
    and i2: "allItems [snapU, snapH3] =
      {STROKE \<lparr>uid = ''u'', pathData = ''p'', timestamp = 5\<rparr>, HIDE ''h'' ''u'' 3}"
    by (auto simp: allItems_def snapU_def snapH10_def snapH3_def)
  have "\<not> om_has (mergeStates [snapU, snapH10]) ''u''"
    using tombstone_by_timestamp [OF s1, of "''h''" "''u''" 10] by (simp add: i1)
  moreover have "om_has (mergeStates [snapU, snapH3]) ''u''"
    using tombstone_by_timestamp [OF s2, of _ _ _ "\<lparr>uid = ''u'', pathData = ''p'', timestamp = 5\<rparr>"]
    by (simp add: i2)
  ultimately show ?thesis using s1 s2 by (simp add: i1 i2)
qed

section \<open>The order of the arguments\<close>

text \<open>
  The hypothesis of the specification: items of different UIDs, taken from either
  snapshot, have different timestamps.
\<close>

definition distinctAcrossUids :: "'n DrawState \<Rightarrow> 'n DrawState \<Rightarrow> bool" where
  "distinctAcrossUids A B =
     (\<forall>a \<in> set (om_values (getStrokeMap A)) \<union> set (om_values (getStrokeMap B)).
      \<forall>b \<in> set (om_values (getStrokeMap A)) \<union> set (om_values (getStrokeMap B)).
        sd_uid a \<noteq> sd_uid b \<longrightarrow> sd_timestamp a \<noteq> sd_timestamp b)"

text \<open>
  Two items, taken from either snapshot, with the same UID and the same timestamp are
  the same item: a tie is a tie between copies of one item.
\<close>

definition tiedCopiesEqual :: "'n DrawState \<Rightarrow> 'n DrawState \<Rightarrow> bool" where
  "tiedCopiesEqual A B =
     (\<forall>a \<in> set (om_values (getStrokeMap A)) \<union> set (om_values (getStrokeMap B)).
      \<forall>b \<in> set (om_values (getStrokeMap A)) \<union> set (om_values (getStrokeMap B)).
        sd_uid a = sd_uid b \<and> sd_timestamp a = sd_timestamp b \<longrightarrow> a = b)"

lemma sorted_mset_unique:
  assumes "sorted (map f xs)" "sorted (map f ys)" "mset xs = mset ys" "inj_on f (set xs)"
  shows "xs = ys"
proof -
  have m: "mset (map f xs) = mset (map f ys)" using assms(3) by simp
  have "sort (map f ys) = map f xs" using m assms(1) by (rule properties_for_sort)
  moreover have "sort (map f ys) = map f ys" using assms(2) by (intro properties_for_sort) simp
  ultimately have eq: "map f xs = map f ys" by simp
  have "set ys = set xs" using assms(3) by (metis mset_eq_setD)
  then have "inj_on f (set xs \<union> set ys)" using assms(4) by simp
  then show ?thesis using eq by (simp add: inj_on_map_eq_map)
qed

text \<open>
  For snapshots stored in timestamp order both pop sequences are sorted by timestamp and
  hold the same items; when the timestamp determines the item they are the same list.
\<close>

lemma popOrder_sorted_swap:
  assumes "tsSorted A" "tsSorted B" "distinctAcrossUids A B" "tiedCopiesEqual A B"
  shows "popOrder [A, B] = popOrder [B, A]"
proof (rule sorted_mset_unique)
  show "sorted (map sd_timestamp (popOrder [A, B]))"
    using assms(1,2) by (intro popOrder_sorted) simp
  show "sorted (map sd_timestamp (popOrder [B, A]))"
    using assms(1,2) by (intro popOrder_sorted) simp
  show "mset (popOrder [A, B]) = mset (popOrder [B, A])"
    by (simp add: popOrder_mset)
  have "\<And>a b. a \<in> allItems [A, B] \<Longrightarrow> b \<in> allItems [A, B] \<Longrightarrow>
      sd_timestamp a = sd_timestamp b \<Longrightarrow> a = b"
  proof -
    fix a b assume ab: "a \<in> allItems [A, B]" "b \<in> allItems [A, B]"
      and t: "sd_timestamp a = sd_timestamp b"
    from ab have a: "a \<in> set (om_values (getStrokeMap A)) \<union> set (om_values (getStrokeMap B))"
      and b: "b \<in> set (om_values (getStrokeMap A)) \<union> set (om_values (getStrokeMap B))"
      by (auto simp: allItems_def)
    from assms(3) a b t have "sd_uid a = sd_uid b" unfolding distinctAcrossUids_def by blast
    with assms(4) a b t show "a = b" unfolding tiedCopiesEqual_def by blast
  qed
  then show "inj_on sd_timestamp (set (popOrder [A, B]))"
    unfolding popOrder_set by (intro inj_onI) blast
qed

text \<open>
  \<open>snapP\<close> and \<open>snapQ\<close> share the stroke \<open>x\<close>; the only tie is between the two copies of
  \<open>x\<close>, but \<open>snapP\<close> stores a tombstone for \<open>x\<close> with an earlier timestamp after it. The
  heap pops the copy of the first argument first, and the tombstone falls before or after
  the second copy accordingly. \<open>snapC\<close> and \<open>snapD\<close> are stored in timestamp order and
  hold the stroke \<open>c\<close> with one timestamp and two payloads: the payload of the second
  argument is set last.
\<close>

definition snapP :: "int DrawState" where
  "snapP = snapshot [(''x'', STROKE \<lparr>uid = ''x'', pathData = ''p'', timestamp = 1\<rparr>),
                     (''h'', HIDE ''h'' ''x'' 0)]"

definition snapQ :: "int DrawState" where
  "snapQ = snapshot [(''x'', STROKE \<lparr>uid = ''x'', pathData = ''p'', timestamp = 1\<rparr>)]"

definition snapC :: "int DrawState" where
  "snapC = snapshot [(''c'', STROKE \<lparr>uid = ''c'', pathData = ''p'', timestamp = 5\<rparr>)]"

definition snapD :: "int DrawState" where
  "snapD = snapshot [(''c'', STROKE \<lparr>uid = ''c'', pathData = ''q'', timestamp = 5\<rparr>)]"

theorem merge_order_counterexample:
  "distinctAcrossUids snapP snapQ \<and> tiedCopiesEqual snapP snapQ \<and>
   mergeStates [snapP, snapQ] = [(''x'', \<lparr>uid = ''x'', pathData = ''p'', timestamp = 1\<rparr>)] \<and>
   mergeStates [snapQ, snapP] = [] \<and>
   distinctAcrossUids snapC snapD \<and> tsSorted snapC \<and> tsSorted snapD \<and>
   mergeStates [snapC, snapD] = [(''c'', \<lparr>uid = ''c'', pathData = ''q'', timestamp = 5\<rparr>)] \<and>
   mergeStates [snapD, snapC] = [(''c'', \<lparr>uid = ''c'', pathData = ''p'', timestamp = 5\<rparr>)]"
proof -
  have "distinctAcrossUids snapP snapQ" "tiedCopiesEqual snapP snapQ"
    "distinctAcrossUids snapC snapD" "tsSorted snapC" "tsSorted snapD"
    by (simp_all add: distinctAcrossUids_def tiedCopiesEqual_def tsSorted_def
        snapP_def snapQ_def snapC_def snapD_def)
  moreover have "mergeStates [snapP, snapQ] = [(''x'', \<lparr>uid = ''x'', pathData = ''p'', timestamp = 1\<rparr>)]"
    by code_simp
  moreover have "mergeStates [snapQ, snapP] = []"
    by code_simp
  moreover have "mergeStates [snapC, snapD] = [(''c'', \<lparr>uid = ''c'', pathData = ''q'', timestamp = 5\<rparr>)]"
    by code_simp
  moreover have "mergeStates [snapD, snapC] = [(''c'', \<lparr>uid = ''c'', pathData = ''p'', timestamp = 5\<rparr>)]"
    by code_simp
  ultimately show ?thesis by simp
qed

text \<open>
  \<open>snapS\<close> and \<open>snapT\<close> are stored in timestamp order and share the stroke \<open>x\<close>.
\<close>

definition snapS :: "int DrawState" where
  "snapS = snapshot [(''x'', STROKE \<lparr>uid = ''x'', pathData = ''p'', timestamp = 1\<rparr>),
                     (''m'', MUTATE ''m'' ''x'' ''q'' 2)]"

definition snapT :: "int DrawState" where
  "snapT = snapshot [(''x'', STROKE \<lparr>uid = ''x'', pathData = ''p'', timestamp = 1\<rparr>),
                     (''y'', STROKE \<lparr>uid = ''y'', pathData = ''r'', timestamp = 3\<rparr>)]"

text \<open>
  Claim C8, as amended. \<open>mergeStates\<close> returns the same map, entries and order, for both
  argument orders in two cases. First, for two snapshots that are stored in timestamp
  order, whose items of different UIDs have different timestamps and whose items with one
  UID and one timestamp are identical; the snapshots may share items. Second, with no
  condition on the stored order, for two snapshots such that no item of one has the
  timestamp of an item of the other.
\<close>

theorem merge_argument_order:
  assumes "(tsSorted A \<and> tsSorted B \<and> distinctAcrossUids A B \<and> tiedCopiesEqual A B) \<or>
           noCrossTies [A, B]"
  shows "mergeStates [A, B] = mergeStates [B, A]"
proof -
  have "popOrder [A, B] = popOrder [B, A]"
  proof (cases "noCrossTies [A, B]")
    case True
    have "popOrder [A, B] = popOrder_spec [A, B]"
      using True by (rule popOrder_eq_spec)
    also have "\<dots> = popOrder [B, A]"
      using popOrder_swap[of A B] True by (simp add: noCrossTies_pair)
    finally show ?thesis .
  next
    case False
    with assms show ?thesis by (intro popOrder_sorted_swap) simp_all
  qed
  then show ?thesis by (simp add: mergeStates_popOrder)
qed

theorem merge_argument_order_witness:
  "tsSorted snapS \<and> tsSorted snapT \<and> distinctAcrossUids snapS snapT \<and>
   tiedCopiesEqual snapS snapT \<and>
   mergeStates [snapT, snapS] =
     [(''x'', \<lparr>uid = ''x'', pathData = ''q'', timestamp = 1\<rparr>),
      (''y'', \<lparr>uid = ''y'', pathData = ''r'', timestamp = 3\<rparr>)] \<and>
   mergeStates [snapS, snapT] = mergeStates [snapT, snapS] \<and>
   noCrossTies [snapA, snapB] \<and>
   mergeStates [snapB, snapA] = [(''a'', \<lparr>uid = ''a'', pathData = ''q'', timestamp = 1\<rparr>)] \<and>
   mergeStates [snapA, snapB] = mergeStates [snapB, snapA]"
proof -
  have h: "tsSorted snapS" "tsSorted snapT" "distinctAcrossUids snapS snapT"
    "tiedCopiesEqual snapS snapT"
    by (simp_all add: distinctAcrossUids_def tiedCopiesEqual_def tsSorted_def
        snapS_def snapT_def)
  have 1: "mergeStates [snapT, snapS] =
     [(''x'', \<lparr>uid = ''x'', pathData = ''q'', timestamp = 1\<rparr>),
      (''y'', \<lparr>uid = ''y'', pathData = ''r'', timestamp = 3\<rparr>)]"
    by code_simp
  have 2: "mergeStates [snapB, snapA] = [(''a'', \<lparr>uid = ''a'', pathData = ''q'', timestamp = 1\<rparr>)]"
    by code_simp
  from merge_argument_order [of snapS snapT] merge_argument_order [of snapA snapB]
    h noCrossTies_AB 1 2
  show ?thesis by simp
qed

section \<open>The supersede index\<close>

text \<open>
  The supersede invariant of a stroke map and its index: the keys are distinct and every
  MUTATE record of the map is the one its origin is indexed to. It is required of a
  record and of every record on its undo and history stacks.
\<close>

fun mutOrigin :: "StrokeData \<Rightarrow> string option" where
  "mutOrigin (MUTATE u ou p ts) = Some ou"
| "mutOrigin (STROKE s) = None"
| "mutOrigin (HIDE u ou ts) = None"

definition indexed :: "(string, StrokeData) OrderedMap \<Rightarrow> (string, string) OrderedMap \<Rightarrow> bool" where
  "indexed s mp =
     (distinct (map fst s) \<and>
      (\<forall>e \<in> set s. \<forall>ou. mutOrigin (snd e) = Some ou \<longrightarrow> om_get mp ou = Some (fst e)))"

fun supersedeInv :: "DrawStateRecord \<Rightarrow> bool" where
  "supersedeInv (DrawStateRecord s mp us hs) =
     (indexed s mp \<and> (\<forall>r \<in> set us. supersedeInv r) \<and> (\<forall>r \<in> set hs. supersedeInv r))"

lemma supersedeInv_iff:
  "supersedeInv r =
     (indexed (strokes r) (mutationPairs r) \<and> (\<forall>x \<in> set (undoStack r). supersedeInv x) \<and>
      (\<forall>x \<in> set (historyStack r). supersedeInv x))"
  by (cases r) simp

lemma om_get_set: "om_get (om_set k v m) k' = (if k' = k then Some v else om_get m k')"
  by (induction m) (auto simp: om_get_def)

lemma om_set_subset: "set (om_set k v m) \<subseteq> insert (k, v) (set m)"
  by (induction m) auto

lemma indexed_weaken:
  assumes "indexed s mp" "distinct (map fst s')"
    "\<And>e. e \<in> set s' \<Longrightarrow> mutOrigin (snd e) \<noteq> None \<Longrightarrow> e \<in> set s"
  shows "indexed s' mp"
  using assms unfolding indexed_def by (metis option.distinct(1))

lemma indexed_om_set:
  "indexed s mp \<Longrightarrow> mutOrigin v = None \<Longrightarrow> indexed (om_set k v s) mp"
proof (rule indexed_weaken[of s mp])
  assume a: "indexed s mp" "mutOrigin v = None"
  show "indexed s mp" by fact
  show "distinct (map fst (om_set k v s))" using a(1) by (simp add: indexed_def om_set_distinct)
  fix e assume "e \<in> set (om_set k v s)" "mutOrigin (snd e) \<noteq> None"
  then show "e \<in> set s" using om_set_subset[of k v s] a(2) by auto
qed

lemma indexed_om_delete: "indexed s mp \<Longrightarrow> indexed (om_delete k s) mp"
  by (rule indexed_weaken[of s mp]) (auto simp: indexed_def om_delete_def distinct_map_filter)

lemma indexed_om_deleteAll: "indexed s mp \<Longrightarrow> indexed (om_deleteAll ks s) mp"
  by (rule indexed_weaken[of s mp]) (auto simp: indexed_def om_deleteAll_filter distinct_map_filter)

lemma indexed_om_merge:
  "indexed s mp \<Longrightarrow> \<forall>e \<in> set es. mutOrigin (snd e) = None \<Longrightarrow> indexed (om_merge es s) mp"
proof (induction es arbitrary: s)
  case Nil
  then show ?case by (simp add: om_merge_def)
next
  case (Cons e es)
  have "indexed (om_set (fst e) (snd e) s) mp" using Cons.prems by (intro indexed_om_set) auto
  then have "indexed (om_merge es (om_set (fst e) (snd e) s)) mp"
    using Cons.prems(2) by (intro Cons.IH) auto
  then show ?case by (simp add: om_merge_def)
qed

lemma indexed_insertHidden:
  "indexed s mp \<Longrightarrow> indexed (fst (insertHidden hs s e)) mp"
proof (induction hs arbitrary: s e)
  case Nil
  then show ?case by simp
next
  case (Cons h hs)
  show ?case
    using Cons.IH[OF indexed_om_set[OF Cons.prems, of "HIDE (fst (v4 e)) h (fst (Date_now (snd (v4 e))))" "fst (v4 e)"]]
    by (simp add: case_prod_beta)
qed

lemma splitEntries_strokes: "\<forall>en \<in> set (splitEntries e ts u i ps). mutOrigin (snd en) = None"
  by (induction ps arbitrary: u i) (auto simp: Let_def)

lemma om_merge_entries: "en \<in> set (om_merge es acc) \<Longrightarrow> en \<in> set acc \<or> en \<in> set es"
proof (induction es arbitrary: acc)
  case Nil
  then show ?case by (simp add: om_merge_def)
next
  case (Cons x es)
  then have "en \<in> set (om_merge es (om_set (fst x) (snd x) acc))" by (simp add: om_merge_def)
  from Cons.IH[OF this] show ?case using om_set_subset[of "fst x" "snd x" acc] by auto
qed

lemma splitForEach_entries:
  "en \<in> set (splitForEach e sp rest acc) \<Longrightarrow>
   en \<in> set acc \<or> en \<in> set rest \<or> mutOrigin (snd en) = None"
proof (induction rest arbitrary: acc)
  case Nil
  then show ?case by simp
next
  case (Cons entry rest)
  let ?acc = "case splitMap_get sp (fst entry) of
          Some ss \<Rightarrow>
            om_merge (splitEntries e (sd_timestamp (snd entry)) (fst entry) 0 ss) acc
        | None \<Rightarrow> om_set (fst entry) (snd entry) acc"
  from Cons.prems have "en \<in> set (splitForEach e sp rest ?acc)" by simp
  from Cons.IH[OF this] have d: "en \<in> set ?acc \<or> en \<in> set rest \<or> mutOrigin (snd en) = None" .
  show ?case
  proof (cases "en \<in> set ?acc")
    case False
    with d show ?thesis by auto
  next
    case 1: True
    show ?thesis
    proof (cases "splitMap_get sp (fst entry)")
      case None
      with 1 have "en \<in> set (om_set (fst entry) (snd entry) acc)" by simp
      then show ?thesis using om_set_subset[of "fst entry" "snd entry" acc] by auto
    next
      case (Some ss)
      let ?es = "splitEntries e (sd_timestamp (snd entry)) (fst entry) 0 ss"
      from 1 Some have "en \<in> set (om_merge ?es acc)" by simp
      then have "en \<in> set acc \<or> en \<in> set ?es" by (rule om_merge_entries)
      then show ?thesis using splitEntries_strokes[of e _ _ 0 ss] by auto
    qed
  qed
qed

lemma om_merge_distinct: "distinct (map fst m) \<Longrightarrow> distinct (map fst (om_merge es m))"
  by (induction es arbitrary: m) (simp_all add: om_merge_def om_set_distinct)

lemma splitForEach_distinct:
  "distinct (map fst acc) \<Longrightarrow> distinct (map fst (splitForEach e sp rest acc))"
proof (induction rest arbitrary: acc)
  case Nil
  then show ?case by simp
next
  case (Cons entry rest)
  show ?case
    by (cases "splitMap_get sp (fst entry)")
       (simp_all add: Cons.IH Cons.prems om_set_distinct om_merge_distinct)
qed

lemma indexed_splitForEach:
  "indexed s mp \<Longrightarrow> indexed (splitForEach e sp s []) mp"
proof (rule indexed_weaken[of s mp])
  assume a: "indexed s mp"
  show "indexed s mp" by fact
  show "distinct (map fst (splitForEach e sp s []))" by (simp add: splitForEach_distinct)
  fix en assume "en \<in> set (splitForEach e sp s [])" "mutOrigin (snd en) \<noteq> None"
  then show "en \<in> set s" using splitForEach_entries[of en e sp s "[]"] by auto
qed

lemma indexed_applyMutations:
  "indexed (fst sm) (snd sm) \<Longrightarrow>
   indexed (fst (fst (applyMutations ts ms sm e))) (snd (fst (applyMutations ts ms sm e)))"
proof (induction ms arbitrary: sm e)
  case Nil
  then show ?case by simp
next
  case (Cons m ms)
  let ?new = "fst (v4 e)"
  let ?s1 = "om_set ?new (MUTATE ?new (fst m) (snd m) ts) (fst sm)"
  let ?prev = "case om_get (snd sm) (fst m) of None \<Rightarrow> [] | Some p \<Rightarrow> p"
  let ?mp1 = "om_set (fst m) ?new (snd sm)"
  let ?s2 = "om_delete ?prev ?s1"
  have d: "distinct (map fst ?s2)"
    using Cons.prems by (simp add: indexed_def om_set_distinct om_delete_distinct)
  have "\<forall>en \<in> set ?s2. \<forall>ou. mutOrigin (snd en) = Some ou \<longrightarrow> om_get ?mp1 ou = Some (fst en)"
  proof (intro ballI allI impI)
    fix en ou assume en: "en \<in> set ?s2" and mo: "mutOrigin (snd en) = Some ou"
    from en have in1: "en \<in> set ?s1" and np: "fst en \<noteq> ?prev" by (auto simp: om_delete_def)
    show "om_get ?mp1 ou = Some (fst en)"
    proof (cases "en = (?new, MUTATE ?new (fst m) (snd m) ts)")
      case True
      with mo show ?thesis by (simp add: om_get_set)
    next
      case False
      with in1 om_set_subset[of ?new _ "fst sm"] have old: "en \<in> set (fst sm)" by auto
      with Cons.prems mo have g: "om_get (snd sm) ou = Some (fst en)" by (simp add: indexed_def)
      show ?thesis
      proof (cases "ou = fst m")
        case True
        with g np show ?thesis by simp
      next
        case False
        with g show ?thesis by (simp add: om_get_set)
      qed
    qed
  qed
  with d have "indexed (fst (?s2, ?mp1)) (snd (?s2, ?mp1))" by (simp add: indexed_def)
  from Cons.IH[OF this] show ?case by (simp add: case_prod_beta Let_def)
qed

definition snapshotInv :: "'n DrawState \<Rightarrow> bool" where
  "snapshotInv ds = supersedeInv (immutable ds)"

lemma snapshotInv_parts:
  "snapshotInv ds =
     (indexed (getStrokeMap ds) (getMutationPairs ds) \<and>
      (\<forall>x \<in> set (getUndoStack ds). supersedeInv x) \<and>
      (\<forall>x \<in> set (getHistoryStack ds). supersedeInv x))"
  unfolding snapshotInv_def getStrokeMap_def getMutationPairs_def getUndoStack_def
    getHistoryStack_def by (rule supersedeInv_iff)

lemma inv_createEmpty: "snapshotInv (createEmpty ratio w)"
  by (simp add: snapshotInv_def createEmpty_def defaultFactory_def indexed_def)

lemma inv_pushStroke: "snapshotInv ds \<Longrightarrow> snapshotInv (pushStroke ds s)"
  unfolding snapshotInv_parts
  by (auto simp: indexed_om_set) (simp add: snapshotInv_def[symmetric] snapshotInv_parts)


lemma immutable_inv: "snapshotInv ds \<Longrightarrow> supersedeInv (immutable ds)"
  by (simp add: snapshotInv_def)

lemma inv_pushStrokeList: "snapshotInv ds \<Longrightarrow> snapshotInv (pushStrokeList ds ss)"
  unfolding snapshotInv_parts by (auto intro!: indexed_om_merge)

lemma inv_eraseStrokes:
  assumes "snapshotInv ds"
  shows "snapshotInv (fst (eraseStrokes ds erased e))"
proof (cases "erased = []")
  case True
  with assms show ?thesis by (simp add: eraseStrokes_def)
next
  case False
  have s: "getStrokeMap (fst (eraseStrokes ds erased e)) =
      fst (insertHidden (filter (\<lambda>u. \<not> om_has (getStrokeMap ds) u) erased)
             (om_deleteAll erased (getStrokeMap ds)) e)"
    using False by (simp add: eraseStrokes_nonempty getStrokeMap_def)
  have "indexed (getStrokeMap (fst (eraseStrokes ds erased e))) (getMutationPairs ds)"
    unfolding s using assms
    by (intro indexed_insertHidden indexed_om_deleteAll) (simp add: snapshotInv_parts)
  then show ?thesis
    using assms immutable_inv[OF assms] False
    by (simp add: snapshotInv_parts[of "fst (eraseStrokes ds erased e)"] eraseStrokes_fields)
       (simp add: snapshotInv_parts)
qed

lemma inv_mutateStrokes:
  assumes "snapshotInv ds"
  shows "snapshotInv (fst (mutateStrokes ds mutations tsArg e))"
proof (cases "mutations = []")
  case True
  with assms show ?thesis by (simp add: mutateStrokes_def case_prod_beta)
next
  case False
  let ?te = "case tsArg of None \<Rightarrow> Date_now e | Some t \<Rightarrow> (t, e)"
  let ?r = "applyMutations (fst ?te) mutations (getStrokeMap ds, getMutationPairs ds) (snd ?te)"
  have s: "getStrokeMap (fst (mutateStrokes ds mutations tsArg e)) = fst (fst ?r)"
    "getMutationPairs (fst (mutateStrokes ds mutations tsArg e)) = snd (fst ?r)"
    using False by (simp_all add: mutateStrokes_nonempty Let_def getStrokeMap_def getMutationPairs_def)
  have "indexed (fst (fst ?r)) (snd (fst ?r))"
    using assms by (intro indexed_applyMutations) (simp add: snapshotInv_parts)
  then show ?thesis
    using assms immutable_inv[OF assms] False
    by (simp add: snapshotInv_parts[of "fst (mutateStrokes ds mutations tsArg e)"] s
        mutateStrokes_fields)
       (simp add: snapshotInv_parts)
qed

lemma inv_splitStrokes:
  assumes "snapshotInv ds"
  shows "snapshotInv (splitStrokes ds splitters e)"
proof (cases "splitters = []")
  case True
  with assms show ?thesis by (simp add: splitStrokes_def)
next
  case False
  have s: "getStrokeMap (splitStrokes ds splitters e) = splitForEach e splitters (getStrokeMap ds) []"
    using False by (simp add: splitStrokes_def Let_def getStrokeMap_def)
  have "indexed (splitForEach e splitters (getStrokeMap ds) []) (getMutationPairs ds)"
    using assms by (intro indexed_splitForEach) (simp add: snapshotInv_parts)
  then show ?thesis
    using assms immutable_inv[OF assms] False
    by (simp add: snapshotInv_parts[of "splitStrokes ds splitters e"] s splitStrokes_fields)
       (simp add: snapshotInv_parts)
qed

lemma inv_undo:
  assumes "snapshotInv ds"
  shows "snapshotInv (undo ds)"
proof (cases "getHistoryStack ds = []")
  case True
  with assms show ?thesis by (simp add: undo_def)
next
  case False
  then have "last (getHistoryStack ds) \<in> set (getHistoryStack ds)" by simp
  with assms have l: "supersedeInv (last (getHistoryStack ds))" by (simp add: snapshotInv_parts)
  from assms have u: "\<forall>x \<in> set (getUndoStack ds). supersedeInv x"
    by (simp add: snapshotInv_parts)
  from l have lp: "indexed (strokes (last (getHistoryStack ds))) (mutationPairs (last (getHistoryStack ds)))"
    "\<forall>x \<in> set (historyStack (last (getHistoryStack ds))). supersedeInv x"
    using supersedeInv_iff[of "last (getHistoryStack ds)"] by simp_all
  have "supersedeInv (set_undoStack (immutable ds # getUndoStack ds) (last (getHistoryStack ds)))"
    using lp u immutable_inv[OF assms]
    by (subst supersedeInv_iff) simp
  then show ?thesis by (simp add: undo_nonempty[OF False] snapshotInv_def)
qed

lemma inv_redo:
  assumes "snapshotInv ds"
  shows "snapshotInv (redo ds)"
proof (cases "getUndoStack ds")
  case Nil
  with assms show ?thesis by (simp add: redo_def)
next
  case (Cons r rs)
  with assms have "supersedeInv r" by (simp add: snapshotInv_parts)
  with Cons show ?thesis by (simp add: redo_def snapshotInv_def)
qed

lemma inv_pushOperation:
  "snapshotInv ds \<Longrightarrow> snapshotInv (fst (pushOperation ds op e))"
  by (cases op)
     (simp_all add: pushOperation_def inv_pushStroke inv_pushStrokeList inv_eraseStrokes
        inv_mutateStrokes inv_splitStrokes inv_undo inv_redo)

lemma inv_replay: "snapshotInv ds \<Longrightarrow> snapshotInv (fst (replay ops ds e))"
proof (induction ops arbitrary: ds e)
  case Nil
  then show ?case by simp
next
  case (Cons op ops)
  show ?case
    using Cons.IH[OF inv_pushOperation[OF Cons.prems, of op e], of "snd (pushOperation ds op e)"]
    by (simp add: case_prod_beta)
qed

lemma inv_addStroke: "snapshotInv ds \<Longrightarrow> snapshotInv (fst (addStroke ds p e))"
  by (simp add: addStroke_def case_prod_beta inv_pushStroke)

lemma inv_addStrokeList: "snapshotInv ds \<Longrightarrow> snapshotInv (fst (addStrokeList ds ps e))"
  by (simp add: addStrokeList_def case_prod_beta inv_pushStrokeList)

text \<open>
  The item object with only the last MUTATE record of every origin, in insertion order:
  an entry is dropped when it is a MUTATE record and a later entry is a MUTATE record of
  the same origin.
\<close>

fun keepLast :: "(string \<times> StrokeData) list \<Rightarrow> (string \<times> StrokeData) list" where
  "keepLast [] = []"
| "keepLast (e # r) =
     (if mutOrigin (snd e) \<noteq> None \<and> mutOrigin (snd e) \<in> (\<lambda>x. mutOrigin (snd x)) ` set r
      then keepLast r else e # keepLast r)"

lemma keepLast_subset: "set (keepLast P) \<subseteq> set P"
  by (induction P) auto

lemma keepLast_snoc:
  "keepLast (P @ [e]) =
     (if mutOrigin (snd e) = None then keepLast P @ [e]
      else filter (\<lambda>x. mutOrigin (snd x) \<noteq> mutOrigin (snd e)) (keepLast P) @ [e])"
proof (induction P)
  case Nil
  then show ?case by simp
next
  case (Cons a P)
  show ?case
  proof (cases "mutOrigin (snd a) \<noteq> None \<and> mutOrigin (snd a) \<in> (\<lambda>x. mutOrigin (snd x)) ` set P")
    case True
    then show ?thesis using Cons.IH by auto
  next
    case False
    then show ?thesis using Cons.IH by (auto simp: image_iff)
  qed
qed

lemma keepLast_unique:
  "x \<in> set (keepLast P) \<Longrightarrow> y \<in> set (keepLast P) \<Longrightarrow> distinct (map fst P) \<Longrightarrow>
   mutOrigin (snd x) = Some ou \<Longrightarrow> mutOrigin (snd y) = Some ou \<Longrightarrow> x = y"
proof (induction P)
  case Nil
  then show ?case by simp
next
  case (Cons a P)
  show ?case
  proof (cases "mutOrigin (snd a) \<noteq> None \<and> mutOrigin (snd a) \<in> (\<lambda>x. mutOrigin (snd x)) ` set P")
    case True
    with Cons show ?thesis by auto
  next
    case False
    have orig: "\<And>z. z \<in> set (keepLast P) \<Longrightarrow> mutOrigin (snd z) \<in> (\<lambda>x. mutOrigin (snd x)) ` set P"
      using keepLast_subset[of P] by auto
    from False Cons.prems(1,2) have "x = a \<or> x \<in> set (keepLast P)" "y = a \<or> y \<in> set (keepLast P)"
      by auto
    then show ?thesis
      using Cons.IH Cons.prems(3,4,5) False orig by (metis distinct.simps(2) list.simps(9) option.distinct(1))
  qed
qed


lemma loadScan_keepLast_gen:
  assumes "distinct (map fst (P @ rest))" "[] \<notin> fst ` set (P @ rest)"
    "\<forall>x \<in> set (keepLast P). \<forall>ou. mutOrigin (snd x) = Some ou \<longrightarrow> om_get mp ou = Some (fst x)"
    "\<forall>ou pm. om_get mp ou = Some pm \<longrightarrow>
        (\<exists>x \<in> set (keepLast P). fst x = pm \<and> mutOrigin (snd x) = Some ou)"
  shows "fst (loadScan rest (keepLast P @ rest, mp)) = keepLast (P @ rest)"
  using assms
proof (induction rest arbitrary: P mp)
  case Nil
  then show ?case by simp
next
  case (Cons e rest)
  have d': "distinct (map fst ((P @ [e]) @ rest))" "[] \<notin> fst ` set ((P @ [e]) @ rest)"
    using Cons.prems(1,2) by simp_all
  have dP: "distinct (map fst P)" using Cons.prems(1) by simp
  show ?case
  proof (cases "mutOrigin (snd e)")
    case None
    have step: "loadScan (e # rest) (keepLast P @ e # rest, mp) =
        loadScan rest (keepLast (P @ [e]) @ rest, mp)"
      using None by (cases e; cases "snd e") (auto simp: keepLast_snoc)
    have i2: "\<forall>x \<in> set (keepLast (P @ [e])). \<forall>ou. mutOrigin (snd x) = Some ou \<longrightarrow>
        om_get mp ou = Some (fst x)"
      using Cons.prems(3) None by (auto simp: keepLast_snoc)
    have i3: "\<forall>ou pm. om_get mp ou = Some pm \<longrightarrow>
        (\<exists>x \<in> set (keepLast (P @ [e])). fst x = pm \<and> mutOrigin (snd x) = Some ou)"
      using Cons.prems(4) None by (auto simp: keepLast_snoc)
    from Cons.IH[OF d' i2 i3] show ?thesis unfolding step by simp
  next
    case (Some ou)
    then obtain k u p ts where e: "e = (k, MUTATE u ou p ts)"
      by (cases e; cases "snd e") auto
    let ?mp = "om_set ou k mp"
    let ?keep = "filter (\<lambda>x. mutOrigin (snd x) \<noteq> Some ou) (keepLast P)"
    have snoc: "keepLast (P @ [e]) = ?keep @ [e]" using Some by (simp add: keepLast_snoc)
    have sm: "loadScan (e # rest) (keepLast P @ e # rest, mp) =
        loadScan rest (?keep @ e # rest, ?mp)"
    proof (cases "om_get mp ou")
      case None
      with Cons.prems(3) have "\<forall>x \<in> set (keepLast P). mutOrigin (snd x) \<noteq> Some ou" by force
      then have "?keep = keepLast P" by simp
      with None show ?thesis by (simp add: e)
    next
      case (Some pm)
      with Cons.prems(4) obtain x0 where x0: "x0 \<in> set (keepLast P)" "fst x0 = pm"
        "mutOrigin (snd x0) = Some ou" by blast
      then have x0P: "x0 \<in> set P" using keepLast_subset by blast
      then have pmP: "pm \<in> fst ` set P" using x0(2) by force
      moreover have "[] \<notin> fst ` set P" using Cons.prems(2) by (simp add: image_Un)
      ultimately have pmne: "pm \<noteq> []" by metis
      have out: "\<forall>y \<in> set (e # rest). fst y \<noteq> pm"
        using pmP Cons.prems(1) by auto
      have "\<And>x. x \<in> set (keepLast P) \<Longrightarrow> (fst x \<noteq> pm) = (mutOrigin (snd x) \<noteq> Some ou)"
      proof -
        fix x assume x: "x \<in> set (keepLast P)"
        show "(fst x \<noteq> pm) = (mutOrigin (snd x) \<noteq> Some ou)"
        proof
          assume ne: "fst x \<noteq> pm"
          show "mutOrigin (snd x) \<noteq> Some ou"
          proof
            assume "mutOrigin (snd x) = Some ou"
            with Cons.prems(3) x Some have "fst x = pm" by simp
            with ne show False by simp
          qed
        next
          assume no: "mutOrigin (snd x) \<noteq> Some ou"
          show "fst x \<noteq> pm"
          proof
            assume "fst x = pm"
            moreover have "x \<in> set P" using x keepLast_subset by blast
            ultimately have "x = x0"
              using x0P x0(2) dP by (metis eq_key_imp_eq_value prod.collapse)
            with x0(3) no show False by simp
          qed
        qed
      qed
      then have "filter (\<lambda>x. fst x \<noteq> pm) (keepLast P) = ?keep"
        by (intro filter_cong) auto
      moreover have "filter (\<lambda>x. fst x \<noteq> pm) (e # rest) = e # rest"
        using out by (intro filter_True) auto
      ultimately have "om_delete pm (keepLast P @ e # rest) = ?keep @ e # rest"
        by (simp add: om_delete_def del: filter.simps)
      with Some pmne show ?thesis by (simp add: e)
    qed
    have step: "loadScan (e # rest) (keepLast P @ e # rest, mp) =
        loadScan rest (keepLast (P @ [e]) @ rest, ?mp)"
      unfolding snoc using sm by simp
    have i2: "\<forall>x \<in> set (keepLast (P @ [e])). \<forall>ou'. mutOrigin (snd x) = Some ou' \<longrightarrow>
        om_get ?mp ou' = Some (fst x)"
      unfolding snoc using Cons.prems(3) by (auto simp: om_get_set e)
    have i3: "\<forall>ou' pm. om_get ?mp ou' = Some pm \<longrightarrow>
        (\<exists>x \<in> set (keepLast (P @ [e])). fst x = pm \<and> mutOrigin (snd x) = Some ou')"
    proof (intro allI impI)
      fix ou' pm assume g: "om_get ?mp ou' = Some pm"
      show "\<exists>x \<in> set (keepLast (P @ [e])). fst x = pm \<and> mutOrigin (snd x) = Some ou'"
      proof (cases "ou' = ou")
        case True
        with g have "pm = k" by (simp add: om_get_set)
        with True show ?thesis unfolding snoc by (auto simp: e)
      next
        case False
        with g have "om_get mp ou' = Some pm" by (simp add: om_get_set)
        with Cons.prems(4) obtain x where x: "x \<in> set (keepLast P)" "fst x = pm"
          "mutOrigin (snd x) = Some ou'" by blast
        with False have "x \<in> set ?keep" by simp
        with x show ?thesis unfolding snoc by (intro bexI[of _ x]) simp_all
      qed
    qed
    from Cons.IH[OF d' i2 i3] show ?thesis unfolding step by simp
  qed
qed

lemma loadScan_keepLast:
  assumes "distinct (map fst flat)" "[] \<notin> fst ` set flat"
  shows "fst (loadScan flat (flat, [])) = keepLast flat"
  using loadScan_keepLast_gen[of "[]" flat "[]"] assms by (simp add: om_get_def)

lemma loadScan_indexed_gen:
  assumes "distinct (map fst flat)" "[] \<notin> fst ` set flat"
    "set rest \<subseteq> set flat" "set sm \<subseteq> set flat" "distinct (map fst sm)"
    "\<forall>e \<in> set sm. \<forall>ou. mutOrigin (snd e) = Some ou \<longrightarrow>
        fst e \<in> fst ` set rest \<or> om_get mp ou = Some (fst e)"
    "\<forall>ou pm. om_get mp ou = Some pm \<longrightarrow> pm \<noteq> []"
  shows "indexed (fst (loadScan rest (sm, mp))) (snd (loadScan rest (sm, mp)))"
  using assms(3-7)
proof (induction rest arbitrary: sm mp)
  case Nil
  then show ?case by (auto simp: indexed_def)
next
  case (Cons entry rest)
  have same: "\<And>e. e \<in> set sm \<Longrightarrow> fst e = fst entry \<Longrightarrow> e = entry"
  proof -
    fix e assume "e \<in> set sm" "fst e = fst entry"
    moreover have "entry \<in> set flat" using Cons.prems(1) by simp
    ultimately have "(fst entry, snd e) \<in> set flat" "(fst entry, snd entry) \<in> set flat"
      using Cons.prems(2) by (metis prod.collapse subsetD)+
    with assms(1) have "snd e = snd entry" by (rule eq_key_imp_eq_value)
    with \<open>fst e = fst entry\<close> show "e = entry" by (simp add: prod_eq_iff)
  qed
  have rest: "set rest \<subseteq> set flat" using Cons.prems(1) by simp
  show ?case
  proof (cases "mutOrigin (snd entry)")
    case None
    have step: "loadScan (entry # rest) (sm, mp) = loadScan rest (sm, mp)"
      using None by (cases entry; cases "snd entry") auto
    have "\<forall>e \<in> set sm. \<forall>ou. mutOrigin (snd e) = Some ou \<longrightarrow>
        fst e \<in> fst ` set rest \<or> om_get mp ou = Some (fst e)"
    proof (intro ballI allI impI)
      fix e ou assume e: "e \<in> set sm" "mutOrigin (snd e) = Some ou"
      then have "fst e \<noteq> fst entry" using same[of e] None by auto
      with Cons.prems(4) e show "fst e \<in> fst ` set rest \<or> om_get mp ou = Some (fst e)" by auto
    qed
    from Cons.IH[OF rest Cons.prems(2,3) this Cons.prems(5)] show ?thesis by (simp only: step)
  next
    case (Some ou)
    then obtain k u p ts where entry: "entry = (k, MUTATE u ou p ts)"
      by (cases entry; cases "snd entry") auto
    have kne: "k \<noteq> []" using Cons.prems(1) assms(2) entry by force
    let ?sm = "case om_get mp ou of None \<Rightarrow> sm | Some pm \<Rightarrow> om_delete pm sm"
    let ?mp = "om_set ou k mp"
    have step: "loadScan (entry # rest) (sm, mp) = loadScan rest (?sm, ?mp)"
    proof (cases "om_get mp ou")
      case None
      then show ?thesis by (simp add: entry)
    next
      case (Some pm)
      with Cons.prems(5) have "pm \<noteq> []" by blast
      with Some show ?thesis by (simp add: entry)
    qed
    have sub: "set ?sm \<subseteq> set sm" by (auto simp: om_delete_def split: option.split)
    have p2: "set ?sm \<subseteq> set flat" using sub Cons.prems(2) by auto
    have p3: "distinct (map fst ?sm)"
      using Cons.prems(3) by (auto simp: om_delete_distinct split: option.split)
    have p4: "\<forall>e \<in> set ?sm. \<forall>ou'. mutOrigin (snd e) = Some ou' \<longrightarrow>
        fst e \<in> fst ` set rest \<or> om_get ?mp ou' = Some (fst e)"
    proof (intro ballI allI impI)
      fix e ou' assume e: "e \<in> set ?sm" "mutOrigin (snd e) = Some ou'"
      then have esm: "e \<in> set sm" using sub by auto
      show "fst e \<in> fst ` set rest \<or> om_get ?mp ou' = Some (fst e)"
      proof (cases "fst e = k")
        case True
        then have "e = entry" using same[OF esm] entry by simp
        with e(2) entry show ?thesis by (simp add: om_get_set)
      next
        case False
        with Cons.prems(4) esm e(2) entry
        consider "fst e \<in> fst ` set rest" | "om_get mp ou' = Some (fst e)" by auto
        then show ?thesis
        proof cases
          case 1
          then show ?thesis by simp
        next
          case 2
          show ?thesis
          proof (cases "ou' = ou")
            case True
            with 2 e(1) have False by (auto simp: om_delete_def)
            then show ?thesis ..
          next
            case False
            with 2 show ?thesis by (simp add: om_get_set)
          qed
        qed
      qed
    qed
    have p5: "\<forall>ou' pm. om_get ?mp ou' = Some pm \<longrightarrow> pm \<noteq> []"
      using Cons.prems(5) kne by (auto simp: om_get_set)
    from Cons.IH[OF rest p2 p3 p4 p5] show ?thesis by (simp only: step)
  qed
qed

lemma loadScan_indexed:
  assumes "distinct (map fst flat)" "[] \<notin> fst ` set flat"
  shows "indexed (fst (loadScan flat (flat, []))) (snd (loadScan flat (flat, [])))"
  using assms by (intro loadScan_indexed_gen[of flat]) (auto simp: om_get_def)

lemma inv_loadFromFlat:
  assumes "distinct (map fst (flat_strokes flat))" "[] \<notin> fst ` set (flat_strokes flat)"
  shows "snapshotInv (fst (loadFromFlat flat ratio w e))"
proof -
  let ?r = "loadScan (flat_strokes flat) (flat_strokes flat, [])"
  let ?ds = "\<lparr>immutable = set_mutationPairs (snd ?r) (set_strokes (fst ?r) defaultFactory),
                width = w, height = w * ratio, lastOp = None\<rparr>"
  have "snapshotInv ?ds"
    using loadScan_indexed[OF assms]
    by (simp add: snapshotInv_parts getStrokeMap_def getMutationPairs_def getUndoStack_def
        getHistoryStack_def defaultFactory_def)
  then show ?thesis
    by (cases "operations flat") (simp_all add: loadFromFlat_def case_prod_beta Let_def inv_replay)
qed

text \<open>
  The snapshots reachable from \<open>createEmpty\<close>, or from \<open>loadFromFlat\<close> on an item object
  whose keys are not the empty string, by the operations of the class.
\<close>

inductive_set reachable :: "('n::times) DrawState set" where
  r_createEmpty: "createEmpty ratio w \<in> reachable"
| r_loadFromFlat:
    "distinct (map fst (flat_strokes flat)) \<Longrightarrow> [] \<notin> fst ` set (flat_strokes flat) \<Longrightarrow>
     fst (loadFromFlat flat ratio w e) \<in> reachable"
| r_pushOperation: "ds \<in> reachable \<Longrightarrow> fst (pushOperation ds op e) \<in> reachable"
| r_addStroke: "ds \<in> reachable \<Longrightarrow> fst (addStroke ds p e) \<in> reachable"
| r_addStrokeList: "ds \<in> reachable \<Longrightarrow> fst (addStrokeList ds ps e) \<in> reachable"
| r_pushStroke: "ds \<in> reachable \<Longrightarrow> pushStroke ds stroke \<in> reachable"
| r_pushStrokeList: "ds \<in> reachable \<Longrightarrow> pushStrokeList ds strokeList \<in> reachable"
| r_eraseStrokes: "ds \<in> reachable \<Longrightarrow> fst (eraseStrokes ds erased e) \<in> reachable"
| r_mutateStrokes: "ds \<in> reachable \<Longrightarrow> fst (mutateStrokes ds mutations tsArg e) \<in> reachable"
| r_splitStrokes: "ds \<in> reachable \<Longrightarrow> splitStrokes ds splitters e \<in> reachable"
| r_undo: "ds \<in> reachable \<Longrightarrow> undo ds \<in> reachable"
| r_redo: "ds \<in> reachable \<Longrightarrow> redo ds \<in> reachable"

lemma reachable_inv: "ds \<in> reachable \<Longrightarrow> snapshotInv ds"
  by (induction rule: reachable.induct)
     (simp_all add: inv_createEmpty inv_loadFromFlat inv_pushOperation inv_addStroke
        inv_addStrokeList inv_pushStroke inv_pushStrokeList inv_eraseStrokes inv_mutateStrokes
        inv_splitStrokes inv_undo inv_redo)

text \<open>
  Three persisted states with two MUTATE records of the origin \<open>o\<close>: in \<open>flatBad\<close> the
  first record is stored under the empty string; \<open>flatGood\<close> carries a log with one more
  mutation of \<open>o\<close>; \<open>flatTwo\<close> has no log.
\<close>

definition flatBad :: FlatState where
  "flatBad = \<lparr>flat_strokes = [('''', MUTATE '''' ''o'' ''p'' 1), (''b'', MUTATE ''b'' ''o'' ''q'' 2)],
              operations = None\<rparr>"

definition flatGood :: FlatState where
  "flatGood = \<lparr>flat_strokes = [(''a'', MUTATE ''a'' ''o'' ''p'' 1), (''b'', MUTATE ''b'' ''o'' ''q'' 2)],
               operations = Some [Op_mutate [(''o'', ''r'')] 3]\<rparr>"

definition flatTwo :: FlatState where
  "flatTwo = \<lparr>flat_strokes = [(''a'', MUTATE ''a'' ''o'' ''p'' 1), (''b'', MUTATE ''b'' ''o'' ''q'' 2)],
              operations = None\<rparr>"

text \<open>
  \<open>loadFromFlat\<close> tests the previous MUTATE UID for truthiness: a record stored under the
  empty string is not deleted, and two MUTATE records of one origin remain.
\<close>

theorem empty_key_counterexample:
  "getStrokeMap (fst (loadFromFlat flatBad (2::int) 1000 env0)) =
     [('''', MUTATE '''' ''o'' ''p'' 1), (''b'', MUTATE ''b'' ''o'' ''q'' 2)] \<and>
   getMutationPairs (fst (loadFromFlat flatBad (2::int) 1000 env0)) = [(''o'', ''b'')]"
  by code_simp

lemma flatGood_loaded:
  "getStrokeMap (fst (loadFromFlat flatGood (2::int) 1000 env0)) =
     [(''u'', MUTATE ''u'' ''o'' ''r'' 3)]"
  by code_simp

text \<open>
  Claim C6, as amended. In every snapshot reachable from \<open>createEmpty\<close>, or from
  \<open>loadFromFlat\<close> on an item object with no empty-string key, by any sequence of
  operations, the item map has at most one MUTATE record per origin and \<open>mutationPairs\<close>
  maps the origin of every MUTATE record to the key of that record. On such an item
  object \<open>loadFromFlat\<close> keeps, in insertion order, every entry but the MUTATE records
  that a later MUTATE record of the same origin follows.
\<close>

theorem supersede_index_invariant:
  "(ds \<in> reachable \<longrightarrow>
      distinct (om_keys (getStrokeMap ds)) \<and>
      (\<forall>k u ou p ts. (k, MUTATE u ou p ts) \<in> set (getStrokeMap ds) \<longrightarrow>
         om_get (getMutationPairs ds) ou = Some k) \<and>
      (\<forall>k1 u1 p1 t1 k2 u2 p2 t2 ou.
         (k1, MUTATE u1 ou p1 t1) \<in> set (getStrokeMap ds) \<and>
         (k2, MUTATE u2 ou p2 t2) \<in> set (getStrokeMap ds) \<longrightarrow>
         (k1, MUTATE u1 ou p1 t1) = (k2, MUTATE u2 ou p2 t2))) \<and>
   (distinct (map fst (flat_strokes flat)) \<and> [] \<notin> fst ` set (flat_strokes flat) \<and>
    operations flat = None \<longrightarrow>
      getStrokeMap (fst (loadFromFlat flat ratio w e)) = keepLast (flat_strokes flat))"
proof (intro conjI impI)
  assume r: "ds \<in> reachable"
  from reachable_inv[OF r] have i: "indexed (getStrokeMap ds) (getMutationPairs ds)"
    by (simp add: snapshotInv_parts)
  then have d: "distinct (map fst (getStrokeMap ds))" by (simp add: indexed_def)
  have m: "\<And>k u ou p ts. (k, MUTATE u ou p ts) \<in> set (getStrokeMap ds) \<Longrightarrow>
        om_get (getMutationPairs ds) ou = Some k"
    using i unfolding indexed_def by force
  show "distinct (om_keys (getStrokeMap ds))" using d by (simp add: om_keys_def)
  show "\<forall>k u ou p ts. (k, MUTATE u ou p ts) \<in> set (getStrokeMap ds) \<longrightarrow>
         om_get (getMutationPairs ds) ou = Some k"
    using m by blast
  show "\<forall>k1 u1 p1 t1 k2 u2 p2 t2 ou.
         (k1, MUTATE u1 ou p1 t1) \<in> set (getStrokeMap ds) \<and>
         (k2, MUTATE u2 ou p2 t2) \<in> set (getStrokeMap ds) \<longrightarrow>
         (k1, MUTATE u1 ou p1 t1) = (k2, MUTATE u2 ou p2 t2)"
  proof (intro allI impI)
    fix k1 u1 p1 t1 k2 u2 p2 t2 ou
    assume a: "(k1, MUTATE u1 ou p1 t1) \<in> set (getStrokeMap ds) \<and>
        (k2, MUTATE u2 ou p2 t2) \<in> set (getStrokeMap ds)"
    then have "k1 = k2" using m[of k1 u1 ou p1 t1] m[of k2 u2 ou p2 t2] by simp
    with a d show "(k1, MUTATE u1 ou p1 t1) = (k2, MUTATE u2 ou p2 t2)"
      by (metis eq_key_imp_eq_value)
  qed
next
  assume a: "distinct (map fst (flat_strokes flat)) \<and> [] \<notin> fst ` set (flat_strokes flat) \<and>
    operations flat = None"
  then have "fst (loadScan (flat_strokes flat) (flat_strokes flat, [])) = keepLast (flat_strokes flat)"
    by (intro loadScan_keepLast) simp_all
  with a show "getStrokeMap (fst (loadFromFlat flat ratio w e)) = keepLast (flat_strokes flat)"
    by (simp add: loadFromFlat_def case_prod_beta getStrokeMap_def)
qed

theorem supersede_index_invariant_witness:
  "fst (loadFromFlat flatGood (2::int) 1000 env0) \<in> reachable \<and>
   getStrokeMap (fst (loadFromFlat flatGood (2::int) 1000 env0)) =
     [(''u'', MUTATE ''u'' ''o'' ''r'' 3)] \<and>
   om_get (getMutationPairs (fst (loadFromFlat flatGood (2::int) 1000 env0))) ''o'' = Some ''u'' \<and>
   distinct (map fst (flat_strokes flatTwo)) \<and> [] \<notin> fst ` set (flat_strokes flatTwo) \<and>
   operations flatTwo = None \<and>
   getStrokeMap (fst (loadFromFlat flatTwo (2::int) 1000 env0)) = [(''b'', MUTATE ''b'' ''o'' ''q'' 2)]"
proof -
  have r: "fst (loadFromFlat flatGood (2::int) 1000 env0) \<in> reachable"
    by (rule r_loadFromFlat) (simp_all add: flatGood_def)
  have h: "distinct (map fst (flat_strokes flatTwo)) \<and> [] \<notin> fst ` set (flat_strokes flatTwo) \<and>
      operations flatTwo = None"
    by (simp add: flatTwo_def)
  note t = supersede_index_invariant
    [of "fst (loadFromFlat flatGood (2::int) 1000 env0)" flatTwo "2::int" 1000 env0]
  from t r
  have "\<forall>k u ou p ts. (k, MUTATE u ou p ts) \<in> set (getStrokeMap (fst (loadFromFlat flatGood (2::int) 1000 env0))) \<longrightarrow>
        om_get (getMutationPairs (fst (loadFromFlat flatGood (2::int) 1000 env0))) ou = Some k"
    by blast
  then have 1: "om_get (getMutationPairs (fst (loadFromFlat flatGood (2::int) 1000 env0))) ''o'' = Some ''u''"
    unfolding flatGood_loaded by simp
  from t h have "getStrokeMap (fst (loadFromFlat flatTwo (2::int) 1000 env0)) = keepLast (flat_strokes flatTwo)"
    by blast
  then have 2: "getStrokeMap (fst (loadFromFlat flatTwo (2::int) 1000 env0)) = [(''b'', MUTATE ''b'' ''o'' ''q'' 2)]"
    by (simp add: flatTwo_def)
  from r flatGood_loaded 1 h 2 show ?thesis by simp
qed

end
